theory Spec2Isabelle
  imports Complex_Main
begin

section \<open>Data model of SvgCurve.js\<close>

text \<open>
  The curve generators of \<^verbatim>\<open>src/scene/SvgCurve.js\<close> read an array of points
  (objects with the fields \<^verbatim>\<open>left\<close> and \<^verbatim>\<open>top\<close>), optionally an array of tangent
  vectors (objects with the fields \<^verbatim>\<open>x\<close> and \<^verbatim>\<open>y\<close>), and build SVG path strings.

  \<^item> A JavaScript Number is modelled as a \<^typ>\<open>real\<close>: arithmetic is exact, there is
    no rounding and no overflow. The components of the tangents that
    \<open>monotoneTangents\<close> returns can be NaN; they are of the type \<open>js_number\<close>, a
    \<^typ>\<open>real option\<close> with \<open>None\<close> for NaN. Everywhere else a run that would
    leave the real numbers (arithmetic on \<^verbatim>\<open>undefined\<close> or NaN, a division by zero)
    is an explicit outcome of the model, see \<open>js_error\<close>.
  \<^item> The fields \<^verbatim>\<open>left\<close>, \<^verbatim>\<open>top\<close> are \<open>p_left\<close>, \<open>p_top\<close>; the fields
    \<^verbatim>\<open>x\<close>, \<^verbatim>\<open>y\<close> are \<open>v_x\<close>, \<open>v_y\<close>.
  \<^item> A path string is the list of the drawing commands it spells: the string
    \<^verbatim>\<open>"C" + a + "," + b + "," + c + "," + d + "," + e + "," + f\<close> is the one-element
    list \<open>[CubicTo a b c d e f]\<close>, string concatenation is list append, and the
    empty string is the empty list.
\<close>

record point =
  p_left :: real
  p_top :: real

record vec =
  v_x :: real
  v_y :: real

datatype cmd =
    MoveTo real real
  | CubicTo real real real real real real
  | SmoothCubicTo real real real real
  | QuadTo real real real real

type_synonym path = "cmd list"

text \<open>
  Outcomes other than a returned value. \<open>TypeError\<close> is the exception JavaScript
  throws when a field of \<^verbatim>\<open>undefined\<close> is read (an array read out of range yields
  \<^verbatim>\<open>undefined\<close>). \<open>UndefinedOperand\<close> marks arithmetic on \<^verbatim>\<open>undefined\<close> or NaN
  whose result the model keeps as a real number, and \<open>DivisionByZero\<close> a division
  of a number by \<open>0\<close>: JavaScript continues with NaN or an infinity there, values
  that the real numbers do not have.
\<close>

datatype js_error = TypeError | UndefinedOperand | DivisionByZero

definition bind_js :: "js_error + 'a \<Rightarrow> ('a \<Rightarrow> js_error + 'b) \<Rightarrow> js_error + 'b" where
  "bind_js m f = (case m of Inl e \<Rightarrow> Inl e | Inr v \<Rightarrow> f v)"

text \<open>\<^verbatim>\<open>xs[i]\<close>: \<open>None\<close> is \<^verbatim>\<open>undefined\<close>.\<close>

definition js_get :: "'a list \<Rightarrow> int \<Rightarrow> 'a option" where
  "js_get xs i = (if 0 \<le> i \<and> i < int (length xs) then Some (xs ! nat i) else None)"

text \<open>Reading a field of a value that may be \<^verbatim>\<open>undefined\<close>.\<close>

definition deref :: "'a option \<Rightarrow> js_error + 'a" where
  "deref v = (case v of None \<Rightarrow> Inl TypeError | Some a \<Rightarrow> Inr a)"

text \<open>Using a value that may be \<^verbatim>\<open>undefined\<close> as an operand of arithmetic.\<close>

definition num :: "real option \<Rightarrow> js_error + real" where
  "num v = (case v of None \<Rightarrow> Inl UndefinedOperand | Some a \<Rightarrow> Inr a)"

text \<open>
  Every function starts with the same lines: with \<^verbatim>\<open>from == null\<close> the range is the
  whole array (and \<^verbatim>\<open>to\<close> is overwritten), otherwise \<^verbatim>\<open>L = to - from + 1\<close>. The
  optional pair of arguments is \<open>None\<close> or \<open>Some (from, to)\<close> with two integers (a
  call that passes \<^verbatim>\<open>from\<close> without \<^verbatim>\<open>to\<close>, or an index that is not an integer,
  is not modelled); the result is \<open>(L, from, to)\<close>.
\<close>

definition range_of :: "'a list \<Rightarrow> (int \<times> int) option \<Rightarrow> int \<times> int \<times> int" where
  "range_of points r =
     (case r of
        None \<Rightarrow> (int (length points), 0, int (length points) - 1)
      | Some (from, to) \<Rightarrow> (to - from + 1, from, to))"

text \<open>
  \<^verbatim>\<open>for (i = a; i < n; i++) body\<close> over a state \<open>s\<close>; the body may throw. A loop
  with the test \<^verbatim>\<open>i <= to\<close> is \<open>for_loop a (to + 1)\<close>.
\<close>

function for_loop :: "int \<Rightarrow> int \<Rightarrow> (int \<Rightarrow> 's \<Rightarrow> js_error + 's) \<Rightarrow> 's \<Rightarrow> js_error + 's" where
  "for_loop i n body s =
     (if i < n then
        (case body i s of Inl e \<Rightarrow> Inl e | Inr s' \<Rightarrow> for_loop (i + 1) n body s')
      else Inr s)"
  by pat_completeness auto
termination
  by (relation "measure (\<lambda>(i, n, body, s). nat (n - i))") auto

declare for_loop.simps [simp del]

section \<open>pathBasis: b-spline window to Bezier segment\<close>

text \<open>
  The entries of the matrix are the fractions the source writes, \<^verbatim>\<open>1/6\<close>, \<^verbatim>\<open>2/3\<close>
  and \<^verbatim>\<open>1/3\<close>, as exact real numbers, and \<open>weight\<close> adds and multiplies exactly;
  the program holds the nearest doubles and rounds every sum and product. The
  theorems below use \<open>convert\<close> only for the commands it writes and the windows
  it is applied to; none of them depends on the value of a coefficient or of a
  sum of coefficients.
\<close>

definition basis :: "real list list" where
  "basis =
     [[1/6, 2/3, 1/6,   0],
      [  0, 2/3, 1/3,   0],
      [  0, 1/3, 2/3,   0],
      [  0, 1/6, 2/3, 1/6]]"

definition weight :: "real list \<Rightarrow> point \<Rightarrow> point \<Rightarrow> point \<Rightarrow> point \<Rightarrow> vec" where
  "weight w p0 p1 p2 p3 =
     \<lparr>v_x = w ! 0 * p_left p0 + w ! 1 * p_left p1 + w ! 2 * p_left p2 + w ! 3 * p_left p3,
      v_y = w ! 0 * p_top p0 + w ! 1 * p_top p1 + w ! 2 * p_top p2 + w ! 3 * p_top p3\<rparr>"

text \<open>\<open>convert\<close> on four points that are not \<^verbatim>\<open>undefined\<close>.\<close>

definition convert :: "point \<Rightarrow> point \<Rightarrow> point \<Rightarrow> point \<Rightarrow> path" where
  "convert p0 p1 p2 p3 =
     (let b1 = weight (basis ! 1) p0 p1 p2 p3;
          b2 = weight (basis ! 2) p0 p1 p2 p3;
          b3 = weight (basis ! 3) p0 p1 p2 p3
      in [CubicTo (v_x b1) (v_y b1) (v_x b2) (v_y b2) (v_x b3) (v_y b3)])"

definition convert_segment :: "point \<Rightarrow> point \<Rightarrow> point \<Rightarrow> point \<Rightarrow> path list" where
  "convert_segment p0 p1 p2 p3 =
     (let b0 = weight (basis ! 0) p0 p1 p2 p3;
          b1 = weight (basis ! 1) p0 p1 p2 p3;
          b2 = weight (basis ! 2) p0 p1 p2 p3;
          b3 = weight (basis ! 3) p0 p1 p2 p3
      in [[MoveTo (v_x b0) (v_y b0)],
          [CubicTo (v_x b1) (v_y b1) (v_x b2) (v_y b2) (v_x b3) (v_y b3)]])"

text \<open>
  \<open>pathBasis\<close> and \<open>pathBasis.segment\<close> as the drivers call them: \<open>weight\<close> reads
  \<^verbatim>\<open>left\<close> and \<^verbatim>\<open>top\<close> of all four arguments, so an \<^verbatim>\<open>undefined\<close> argument throws.
\<close>

definition pathBasis ::
  "point option \<Rightarrow> point option \<Rightarrow> point option \<Rightarrow> point option \<Rightarrow> js_error + path" where
  "pathBasis p0 p1 p2 p3 =
     bind_js (deref p0) (\<lambda>a. bind_js (deref p1) (\<lambda>b. bind_js (deref p2) (\<lambda>c.
     bind_js (deref p3) (\<lambda>d. Inr (convert a b c d)))))"

definition pathBasis_segment ::
  "point option \<Rightarrow> point option \<Rightarrow> point option \<Rightarrow> point option \<Rightarrow> js_error + path list" where
  "pathBasis_segment p0 p1 p2 p3 =
     bind_js (deref p0) (\<lambda>a. bind_js (deref p1) (\<lambda>b. bind_js (deref p2) (\<lambda>c.
     bind_js (deref p3) (\<lambda>d. Inr (convert_segment a b c d)))))"

section \<open>curveBasis and curveBasisSegments\<close>

text \<open>The sliding window \<open>(p0, p1, p2, p3)\<close> of both drivers.\<close>

type_synonym window = "point option \<times> point option \<times> point option \<times> point option"

text \<open>The body of the loop of \<open>curveBasis\<close>; the state is the window and the path.\<close>

definition curveBasis_body :: "point list \<Rightarrow> int \<Rightarrow> window \<times> path \<Rightarrow> js_error + window \<times> path" where
  "curveBasis_body points i s =
     (case s of ((p0, p1, p2, p3), path) \<Rightarrow>
        (let p0 = p1; p1 = p2; p2 = p3; p3 = js_get points i in
         bind_js (pathBasis p0 p1 p2 p3) (\<lambda>c. Inr ((p0, p1, p2, p3), path @ c))))"

definition curveBasis :: "point list \<Rightarrow> (int \<times> int) option \<Rightarrow> js_error + path" where
  "curveBasis points r =
     (case range_of points r of (L, from, to) \<Rightarrow>
        if L \<le> 2 then Inr []
        else
          (let path = [];
               p0 = js_get points from; p1 = p0; p2 = p0; p3 = js_get points (from + 1) in
           bind_js (pathBasis p0 p1 p2 p3) (\<lambda>c.
           bind_js (for_loop (from + 2) (to + 1) (curveBasis_body points)
                      ((p0, p1, p2, p3), path @ c)) (\<lambda>s.
           case s of ((p0, p1, p2, p3), path) \<Rightarrow>
             bind_js (pathBasis p1 p2 p3 p3) (\<lambda>c1.
             bind_js (pathBasis p2 p3 p3 p3) (\<lambda>c2.
             Inr (path @ c1 @ c2)))))))"

text \<open>
  What a segmented driver returns: the early exit returns the empty string, every
  other exit an array whose entries are two-element arrays of strings.
\<close>

datatype segments = JString path | JArray "path list list"

definition curveBasisSegments_body ::
  "point list \<Rightarrow> int \<Rightarrow> window \<times> path list list \<Rightarrow> js_error + window \<times> path list list" where
  "curveBasisSegments_body points i s =
     (case s of ((p0, p1, p2, p3), paths) \<Rightarrow>
        (let p0 = p1; p1 = p2; p2 = p3; p3 = js_get points i in
         bind_js (pathBasis_segment p0 p1 p2 p3) (\<lambda>seg.
         Inr ((p0, p1, p2, p3), paths @ [seg]))))"

definition curveBasisSegments :: "point list \<Rightarrow> (int \<times> int) option \<Rightarrow> js_error + segments" where
  "curveBasisSegments points r =
     (case range_of points r of (L, from, to) \<Rightarrow>
        if L \<le> 2 then Inr (JString [])
        else
          (let paths = [];
               p0 = js_get points from; p1 = p0; p2 = p0; p3 = js_get points (from + 1) in
           bind_js (pathBasis_segment p0 p1 p2 p3) (\<lambda>firstPath.
           let p0 = p1; p1 = p2; p2 = p3; p3 = js_get points (from + 2) in
           bind_js (pathBasis p0 p1 p2 p3) (\<lambda>c.
           let firstPath = firstPath[1 := firstPath ! 1 @ c];
               paths = paths @ [firstPath] in
           bind_js (for_loop (from + 3) (to + 1) (curveBasisSegments_body points)
                      ((p0, p1, p2, p3), paths)) (\<lambda>s.
           case s of ((p0, p1, p2, p3), paths) \<Rightarrow>
             bind_js (pathBasis_segment p1 p2 p3 p3) (\<lambda>lastPath.
             bind_js (pathBasis p2 p3 p3 p3) (\<lambda>c2.
             let lastPath = lastPath[1 := lastPath ! 1 @ c2];
                 paths = paths @ [lastPath] in
             Inr (JArray paths))))))))"

section \<open>curveHermite and curveHermiteSegments\<close>

text \<open>
  The body of the loop \<^verbatim>\<open>for (var i = 2 ; i < T ; i++, pi++)\<close>; the variable \<^verbatim>\<open>pi\<close> is
  \<open>pidx\<close> and the state is
  \<open>(p, t, pidx, path)\<close>.
\<close>

definition curveHermite_body ::
  "point list \<Rightarrow> vec list \<Rightarrow> int \<Rightarrow> point option \<times> vec option \<times> int \<times> path
     \<Rightarrow> js_error + point option \<times> vec option \<times> int \<times> path" where
  "curveHermite_body points tangents i s =
     (case s of (p, t, pidx, path) \<Rightarrow>
        (let p = js_get points pidx; t = js_get tangents i in
         bind_js (deref p) (\<lambda>pv. bind_js (deref t) (\<lambda>tv.
         Inr (p, t, pidx + 1,
              path @ [SmoothCubicTo (p_left pv - v_x tv) (p_top pv - v_y tv)
                        (p_left pv) (p_top pv)])))))"

definition curveHermite ::
  "point list \<Rightarrow> vec list \<Rightarrow> (int \<times> int) option \<Rightarrow> js_error + path" where
  "curveHermite points tangents r =
     (case range_of points r of (L, from, to) \<Rightarrow>
        (let T = int (length tangents) in
         if T < 1 \<or> (L \<noteq> T \<and> L \<noteq> T + 2) then Inr []
         else
           (let quad = (L \<noteq> T); path = [];
                p0 = js_get points from; p = js_get points (from + 1);
                t0 = js_get tangents 0; t = t0; pidx = from + 1 in
            bind_js
              (if quad then
                 bind_js (deref p) (\<lambda>pv. bind_js (deref t0) (\<lambda>t0v.
                 Inr (path @ [QuadTo (p_left pv - v_x t0v * 2 / 3) (p_top pv - v_y t0v * 2 / 3)
                                (p_left pv) (p_top pv)],
                      js_get points (from + 1), from + 2)))
               else Inr (path, p0, pidx))
              (\<lambda>(path, p0, pidx).
            bind_js
              (if T > 1 then
                 (let t = js_get tangents 1; p = js_get points pidx; pidx = pidx + 1 in
                  bind_js (deref p0) (\<lambda>p0v. bind_js (deref t0) (\<lambda>t0v.
                  bind_js (deref p) (\<lambda>pv. bind_js (deref t) (\<lambda>tv.
                  for_loop 2 T (curveHermite_body points tangents)
                    (p, t, pidx,
                     path @ [CubicTo (p_left p0v + v_x t0v) (p_top p0v + v_y t0v)
                               (p_left pv - v_x tv) (p_top pv - v_y tv)
                               (p_left pv) (p_top pv)]))))))
               else Inr (p, t, pidx, path))
              (\<lambda>(p, t, pidx, path).
            if quad then
              (let lp = js_get points pidx in
               bind_js (deref p) (\<lambda>pv. bind_js (deref t) (\<lambda>tv. bind_js (deref lp) (\<lambda>lpv.
               Inr (path @ [QuadTo (p_left pv + v_x tv * 2 / 3) (p_top pv + v_y tv * 2 / 3)
                              (p_left lpv) (p_top lpv)])))))
            else Inr path)))))"

text \<open>
  The body of the loop \<^verbatim>\<open>for (var i = 1; i < T; i++, pi++)\<close> of the segmented
  evaluator; the state is \<open>(p0, p, t0, t, pidx, paths)\<close>.
\<close>

type_synonym hermite_state =
  "point option \<times> point option \<times> vec option \<times> vec option \<times> int \<times> path list list"

definition curveHermiteSegments_body ::
  "point list \<Rightarrow> vec list \<Rightarrow> int \<Rightarrow> hermite_state \<Rightarrow> js_error + hermite_state" where
  "curveHermiteSegments_body points tangents i s =
     (case s of (p0, p, t0, t, pidx, paths) \<Rightarrow>
        (let p0 = p; t0 = t; p = js_get points pidx; t = js_get tangents i in
         bind_js (deref p0) (\<lambda>p0v. bind_js (deref t0) (\<lambda>t0v.
         bind_js (deref p) (\<lambda>pv. bind_js (deref t) (\<lambda>tv.
         Inr (p0, p, t0, t, pidx + 1,
              paths @ [[[MoveTo (p_left p0v) (p_top p0v)],
                        [CubicTo (p_left p0v + v_x t0v) (p_top p0v + v_y t0v)
                           (p_left pv - v_x tv) (p_top pv - v_y tv)
                           (p_left pv) (p_top pv)]]])))))))"

definition curveHermiteSegments ::
  "point list \<Rightarrow> vec list \<Rightarrow> (int \<times> int) option \<Rightarrow> js_error + path list list" where
  "curveHermiteSegments points tangents r =
     (case range_of points r of (L, from, to) \<Rightarrow>
        (let T = int (length tangents) in
         if T < 1 \<or> (L \<noteq> T \<and> L \<noteq> T + 2) then Inr []
         else
           (let quad = (L \<noteq> T); paths = [];
                p0 = js_get points from; p = p0;
                t0 = js_get tangents 0; t = t0; pidx = from + 1 in
            bind_js
              (if quad then
                 (let p = js_get points (from + 1) in
                  bind_js (deref p0) (\<lambda>p0v. bind_js (deref p) (\<lambda>pv. bind_js (deref t) (\<lambda>tv.
                  Inr (p, from + 2,
                       paths @ [[[MoveTo (p_left p0v) (p_top p0v)],
                                 [QuadTo (p_left pv - v_x tv * 2 / 3) (p_top pv - v_y tv * 2 / 3)
                                    (p_left pv) (p_top pv)]]])))))
               else Inr (p, pidx, paths))
              (\<lambda>(p, pidx, paths).
            bind_js
              (for_loop 1 T (curveHermiteSegments_body points tangents)
                 (p0, p, t0, t, pidx, paths))
              (\<lambda>(p0, p, t0, t, pidx, paths).
            if quad then
              (let lp = js_get points pidx in
               bind_js (deref p) (\<lambda>pv. bind_js (deref t) (\<lambda>tv. bind_js (deref lp) (\<lambda>lpv.
               Inr (paths @ [[[MoveTo (p_left pv) (p_top pv)],
                              [QuadTo (p_left pv + v_x tv * 2 / 3) (p_top pv + v_y tv * 2 / 3)
                                 (p_left lpv) (p_top lpv)]]])))))
            else Inr paths)))))"

section \<open>cardinalTangents and the cardinal drivers\<close>

text \<open>The state of the loop of \<open>cardinalTangents\<close> is \<open>(p0, p1, p2, tangents)\<close>.\<close>

definition tangent_of :: "real \<Rightarrow> point option \<Rightarrow> point option \<Rightarrow> js_error + vec" where
  "tangent_of a p0 p2 =
     bind_js (deref p2) (\<lambda>p2v. bind_js (deref p0) (\<lambda>p0v.
     Inr \<lparr>v_x = a * (p_left p2v - p_left p0v), v_y = a * (p_top p2v - p_top p0v)\<rparr>))"

definition cardinalTangents_body ::
  "point list \<Rightarrow> real \<Rightarrow> int \<Rightarrow> point option \<times> point option \<times> point option \<times> vec list
     \<Rightarrow> js_error + point option \<times> point option \<times> point option \<times> vec list" where
  "cardinalTangents_body points a i s =
     (case s of (p0, p1, p2, tangents) \<Rightarrow>
        bind_js (tangent_of a p0 p2) (\<lambda>v.
        Inr (p1, p2, js_get points i, tangents @ [v])))"

definition cardinalTangents ::
  "point list \<Rightarrow> real \<Rightarrow> (int \<times> int) option \<Rightarrow> js_error + vec list" where
  "cardinalTangents points tension r =
     (case range_of points r of (L, from, to) \<Rightarrow>
        (let tangents = [];
             a = (1 - tension) / 2;
             p0 = js_get points from;
             p1 = js_get points (from + 1);
             p2 = js_get points (from + 2) in
         bind_js (for_loop (from + 3) (to + 1) (cardinalTangents_body points a)
                    (p0, p1, p2, tangents))
           (\<lambda>(p0, p1, p2, tangents).
         bind_js (tangent_of a p0 p2) (\<lambda>v. Inr (tangents @ [v])))))"

definition curveCardinal ::
  "point list \<Rightarrow> real \<Rightarrow> (int \<times> int) option \<Rightarrow> js_error + path" where
  "curveCardinal points tension r =
     (case range_of points r of (L, from, to) \<Rightarrow>
        if L \<le> 2 then Inr []
        else bind_js (cardinalTangents points tension (Some (from, to)))
               (\<lambda>tangents. curveHermite points tangents (Some (from, to))))"

definition curveCardinalSegments ::
  "point list \<Rightarrow> real \<Rightarrow> (int \<times> int) option \<Rightarrow> js_error + segments" where
  "curveCardinalSegments points tension r =
     (case range_of points r of (L, from, to) \<Rightarrow>
        if L \<le> 2 then Inr (JString [])
        else bind_js (cardinalTangents points tension (Some (from, to)))
               (\<lambda>tangents. bind_js (curveHermiteSegments points tangents (Some (from, to)))
               (\<lambda>paths. Inr (JArray paths))))"

section \<open>monotoneTangents and the monotone drivers\<close>

text \<open>
  The arrays \<^verbatim>\<open>d\<close>, \<^verbatim>\<open>m\<close> and \<^verbatim>\<open>dx\<close> start empty and are filled by index
  assignment; an index never assigned reads as \<^verbatim>\<open>undefined\<close>. They are maps from
  indices to numbers.
\<close>

type_synonym js_array = "int \<Rightarrow> real option"

text \<open>Step 1, the secant slopes: the body of the first loop, over \<open>d\<close>.\<close>

definition secant_body :: "point list \<Rightarrow> int \<Rightarrow> int \<Rightarrow> js_array \<Rightarrow> js_error + js_array" where
  "secant_body points from k d =
     (let j = from + k in
      bind_js (deref (js_get points (j + 1))) (\<lambda>q. bind_js (deref (js_get points j)) (\<lambda>p.
      let den = p_left q - p_left p in
      Inr (d(k \<mapsto> (if \<bar>den\<bar> \<le> 1 / 10 ^ 12 then 0 else (p_top q - p_top p) / den))))))"

text \<open>
  Step 2, the initial slopes: the body of the second loop, over \<open>(m, dx, j)\<close>
  (\<^verbatim>\<open>j\<close> is incremented with \<^verbatim>\<open>k\<close>).
\<close>

definition average_body ::
  "point list \<Rightarrow> js_array \<Rightarrow> int \<Rightarrow> js_array \<times> js_array \<times> int
     \<Rightarrow> js_error + js_array \<times> js_array \<times> int" where
  "average_body points d k s =
     (case s of (m, dx, j) \<Rightarrow>
        bind_js (num (d (k - 1))) (\<lambda>a. bind_js (num (d k)) (\<lambda>b.
        bind_js (deref (js_get points (j + 1))) (\<lambda>q. bind_js (deref (js_get points (j - 1))) (\<lambda>p.
        Inr (m(k \<mapsto> (a + b) / 2), dx(k \<mapsto> (p_left q - p_left p) / 2), j + 1))))))"

text \<open>Step 3: the body of the third loop, over \<open>m\<close>.\<close>

definition flatten_body :: "js_array \<Rightarrow> int \<Rightarrow> js_array \<Rightarrow> js_error + js_array" where
  "flatten_body d k m = (if d k = Some 0 then Inr (m(k \<mapsto> 0, k + 1 \<mapsto> 0)) else Inr m)"

text \<open>
  Steps 4 and 5: the body of the fourth loop, over \<open>m\<close>. \<^verbatim>\<open>Math.abs(undefined) < c\<close>
  is false.
\<close>

definition abs_less :: "real option \<Rightarrow> real \<Rightarrow> bool" where
  "abs_less v c = (case v of None \<Rightarrow> False | Some a \<Rightarrow> \<bar>a\<bar> < c)"

definition js_divide :: "real \<Rightarrow> real \<Rightarrow> js_error + real" where
  "js_divide a b = (if b = 0 then Inl DivisionByZero else Inr (a / b))"

definition clamp_body :: "js_array \<Rightarrow> int \<Rightarrow> js_array \<Rightarrow> js_error + js_array" where
  "clamp_body d k m =
     (if abs_less (m k) (1 / 10 ^ 5) \<or> abs_less (m (k + 1)) (1 / 10 ^ 5) then Inr m
      else
        bind_js (num (m k)) (\<lambda>mk. bind_js (num (d k)) (\<lambda>dk.
        bind_js (js_divide mk dk) (\<lambda>ak.
        bind_js (num (m (k + 1))) (\<lambda>mk1.
        bind_js (js_divide mk1 dk) (\<lambda>bk.
        let s = ak * ak + bk * bk in
        if s > 9 then
          (let tk = 3 / sqrt s in
           Inr (m(k \<mapsto> tk * ak * dk, k + 1 \<mapsto> tk * bk * dk)))
        else Inr m))))))"

text \<open>
  The last loop computes the components of a tangent from \<^verbatim>\<open>m[i]\<close> and \<^verbatim>\<open>dx[i]\<close>,
  which are \<^verbatim>\<open>undefined\<close> at an index never assigned. Arithmetic on \<^verbatim>\<open>undefined\<close>
  yields NaN, and so does arithmetic on NaN; the loop pushes the tangent all the
  same. A number that can be NaN is a \<open>js_number\<close>, with \<open>None\<close> for NaN (and for
  \<^verbatim>\<open>undefined\<close> as an operand), and a tangent is an \<open>nvec\<close>.
\<close>

type_synonym js_number = "real option"

record nvec =
  n_x :: js_number
  n_y :: js_number

definition js_plus :: "js_number \<Rightarrow> js_number \<Rightarrow> js_number" where
  "js_plus a b =
     (case a of None \<Rightarrow> None | Some x \<Rightarrow> (case b of None \<Rightarrow> None | Some y \<Rightarrow> Some (x + y)))"

definition js_times :: "js_number \<Rightarrow> js_number \<Rightarrow> js_number" where
  "js_times a b =
     (case a of None \<Rightarrow> None | Some x \<Rightarrow> (case b of None \<Rightarrow> None | Some y \<Rightarrow> Some (x * y)))"

text \<open>
  \<^verbatim>\<open>a / b\<close>: NaN when an operand is NaN; a number divided by \<open>0\<close> is an infinity or
  NaN in JavaScript, the outcome \<open>DivisionByZero\<close> here.
\<close>

definition js_over :: "js_number \<Rightarrow> js_number \<Rightarrow> js_error + js_number" where
  "js_over a b =
     (case a of None \<Rightarrow> Inr None
      | Some x \<Rightarrow> (case b of None \<Rightarrow> Inr None
                  | Some y \<Rightarrow> if y = 0 then Inl DivisionByZero else Inr (Some (x / y))))"

text \<open>\<^verbatim>\<open>a >= c\<close> for a number \<open>c\<close>: false when \<open>a\<close> is NaN.\<close>

definition js_ge :: "js_number \<Rightarrow> real \<Rightarrow> bool" where
  "js_ge a c = (case a of None \<Rightarrow> False | Some x \<Rightarrow> c \<le> x)"

text \<open>The body of the last loop, over \<open>tangents\<close>.\<close>

definition tangent_body :: "js_array \<Rightarrow> js_array \<Rightarrow> int \<Rightarrow> nvec list \<Rightarrow> js_error + nvec list" where
  "tangent_body m dx i tangents =
     (let len = js_plus (Some 1) (js_times (m i) (m i)) in
      bind_js (js_over (dx i) (Some 3)) (\<lambda>a. bind_js (js_over a len) (\<lambda>x.
      bind_js (js_over (js_times (m i) (dx i)) (Some 3)) (\<lambda>b. bind_js (js_over b len) (\<lambda>y.
      Inr (tangents @ [\<lparr>n_x = x, n_y = y\<rparr>]))))))"

text \<open>
  After the second loop \<^verbatim>\<open>k\<close> is \<open>L - 1\<close> if the loop ran and \<open>1\<close> otherwise, and
  \<^verbatim>\<open>j\<close> is \<open>from + k\<close>: that is \<open>max 1 (L - 1)\<close>. The assignments \<^verbatim>\<open>m[0] = d[0]\<close>
  and \<^verbatim>\<open>m[k] = d[k-1]\<close> copy a value that may be \<^verbatim>\<open>undefined\<close>.
\<close>

definition monotoneTangents :: "point list \<Rightarrow> (int \<times> int) option \<Rightarrow> js_error + nvec list" where
  "monotoneTangents points r =
     (case range_of points r of (L, from, to) \<Rightarrow>
        (let tangents = []; d = Map.empty; m = Map.empty; dx = Map.empty in
         bind_js (for_loop 0 (L - 1) (secant_body points from) d) (\<lambda>d.
         let m = m(0 := d 0) in
         bind_js (deref (js_get points (from + 1))) (\<lambda>q. bind_js (deref (js_get points from)) (\<lambda>p.
         let dx = dx(0 \<mapsto> p_left q - p_left p) in
         bind_js (for_loop 1 (L - 1) (average_body points d) (m, dx, from + 1)) (\<lambda>(m, dx, j).
         let k = max 1 (L - 1);
             m = m(k := d (k - 1)) in
         bind_js (deref (js_get points j)) (\<lambda>q. bind_js (deref (js_get points (j - 1))) (\<lambda>p.
         let dx = dx(k \<mapsto> p_left q - p_left p) in
         bind_js (for_loop 0 (L - 1) (flatten_body d) m) (\<lambda>m.
         bind_js (for_loop 0 (L - 1) (clamp_body d) m) (\<lambda>m.
         for_loop 0 L (tangent_body m dx) tangents))))))))))"

text \<open>
  The monotone drivers pass the tangents to \<open>curveHermite\<close> and
  \<open>curveHermiteSegments\<close>, which compute with real components: a component that
  is NaN is the outcome \<open>UndefinedOperand\<close>. The drivers call \<open>monotoneTangents\<close>
  on ranges of more than two points only, where no tangent it returns has a NaN
  component (lemma \<open>monotoneTangents_real\<close>).
\<close>

definition real_vec :: "nvec \<Rightarrow> js_error + vec" where
  "real_vec t = bind_js (num (n_x t)) (\<lambda>x. bind_js (num (n_y t)) (\<lambda>y. Inr \<lparr>v_x = x, v_y = y\<rparr>))"

fun real_vecs :: "nvec list \<Rightarrow> js_error + vec list" where
  "real_vecs [] = Inr []"
| "real_vecs (t # ts) = bind_js (real_vec t) (\<lambda>v. bind_js (real_vecs ts) (\<lambda>vs. Inr (v # vs)))"

definition curveMonotone :: "point list \<Rightarrow> (int \<times> int) option \<Rightarrow> js_error + path" where
  "curveMonotone points r =
     (case range_of points r of (L, from, to) \<Rightarrow>
        if L \<le> 2 then Inr []
        else bind_js (monotoneTangents points (Some (from, to)))
               (\<lambda>tangents. bind_js (real_vecs tangents)
               (\<lambda>tangents. curveHermite points tangents (Some (from, to)))))"

definition curveMonotoneSegments :: "point list \<Rightarrow> (int \<times> int) option \<Rightarrow> js_error + segments" where
  "curveMonotoneSegments points r =
     (case range_of points r of (L, from, to) \<Rightarrow>
        if L \<le> 2 then Inr (JString [])
        else bind_js (monotoneTangents points (Some (from, to)))
               (\<lambda>tangents. bind_js (real_vecs tangents)
               (\<lambda>tangents. bind_js (curveHermiteSegments points tangents (Some (from, to)))
               (\<lambda>paths. Inr (JArray paths)))))"

section \<open>Reference notions, loop invariants and sample data\<close>

text \<open>
  The Catmull-Rom chord at the point with index \<open>i\<close> of the array, scaled by \<open>a\<close>:
  \<open>a * (p[i+1] - p[i-1])\<close>.
\<close>

definition chord :: "real \<Rightarrow> point list \<Rightarrow> nat \<Rightarrow> vec" where
  "chord a points i =
     \<lparr>v_x = a * (p_left (points ! (i + 1)) - p_left (points ! (i - 1))),
      v_y = a * (p_top (points ! (i + 1)) - p_top (points ! (i - 1)))\<rparr>"

text \<open>
  The invariant of the loop of \<open>cardinalTangents\<close>, on a range that starts at the
  index \<open>nf\<close>: before the iteration \<open>j = m + 3\<close> the window is at the points
  \<open>m\<close>, \<open>m + 1\<close>, \<open>m + 2\<close> and the chords around the points before \<open>m + 1\<close>
  have been pushed.
\<close>

definition cardinal_inv ::
  "point list \<Rightarrow> real \<Rightarrow> nat \<Rightarrow> int \<Rightarrow> point option \<times> point option \<times> point option \<times> vec list \<Rightarrow> bool" where
  "cardinal_inv points a nf j s =
     (\<exists>m. j = int m + 3 \<and> nf \<le> m \<and>
          s = (Some (points ! m), Some (points ! (m + 1)), Some (points ! (m + 2)),
               map (chord a points) [nf + 1..<m + 1]))"

text \<open>Five sample points, with a flat pair in the middle.\<close>

definition example_points :: "point list" where
  "example_points =
     [\<lparr>p_left = 0, p_top = 0\<rparr>, \<lparr>p_left = 1, p_top = 1\<rparr>, \<lparr>p_left = 2, p_top = 1\<rparr>,
      \<lparr>p_left = 3, p_top = 5\<rparr>, \<lparr>p_left = 4, p_top = 4\<rparr>]"

text \<open>The points of the range \<open>[from, to]\<close>, both ends included.\<close>

definition points_in_range :: "'a list \<Rightarrow> int \<Rightarrow> int \<Rightarrow> 'a list" where
  "points_in_range points from to = take (nat (to - from + 1)) (drop (nat from) points)"

text \<open>
  The basis spline as the specification words it: the first point is duplicated
  twice at the start and the last point twice at the end, a window of four points
  slides across the padded sequence, and every window is converted.
\<close>

definition pad_ends :: "'a list \<Rightarrow> 'a list" where
  "pad_ends ps = [hd ps, hd ps] @ ps @ [last ps, last ps]"

fun windows4 :: "'a list \<Rightarrow> ('a \<times> 'a \<times> 'a \<times> 'a) list" where
  "windows4 (a # b # c # d # xs) = (a, b, c, d) # windows4 (b # c # d # xs)"
| "windows4 xs = []"

definition basis_reference :: "point list \<Rightarrow> path" where
  "basis_reference ps = concat (map (\<lambda>(a, b, c, d). convert a b c d) (windows4 (pad_ends ps)))"

text \<open>The kind of a drawing command.\<close>

datatype cmd_kind = Move | Cubic | SmoothCubic | Quad

fun kind_of :: "cmd \<Rightarrow> cmd_kind" where
  "kind_of (MoveTo a b) = Move"
| "kind_of (CubicTo a b c d e f) = Cubic"
| "kind_of (SmoothCubicTo a b c d) = SmoothCubic"
| "kind_of (QuadTo a b c d) = Quad"

text \<open>The window that starts at the index \<open>k\<close> of a list, and its conversion.\<close>

definition window_at :: "'a list \<Rightarrow> nat \<Rightarrow> 'a \<times> 'a \<times> 'a \<times> 'a" where
  "window_at xs k = (xs ! k, xs ! (k + 1), xs ! (k + 2), xs ! (k + 3))"

definition window_cmd :: "point list \<Rightarrow> nat \<Rightarrow> path" where
  "window_cmd xs k = (case window_at xs k of (a, b, c, d) \<Rightarrow> convert a b c d)"

text \<open>
  The invariant of the loop of \<open>curveBasis\<close> in terms of the padded sequence
  \<open>pad\<close>: before the iteration \<open>j = from + 2 + t\<close> the window is the one at \<open>t\<close> and
  the windows up to \<open>t\<close> have been converted.
\<close>

definition basis_inv :: "point list \<Rightarrow> int \<Rightarrow> int \<Rightarrow> window \<times> path \<Rightarrow> bool" where
  "basis_inv pad from j s =
     (\<exists>t. j = from + 2 + int t \<and>
          s = ((Some (pad ! t), Some (pad ! (t + 1)), Some (pad ! (t + 2)), Some (pad ! (t + 3))),
               concat (map (window_cmd pad) [0..<t + 1])))"

text \<open>
  \<^verbatim>\<open>seg[1] += c\<close>: the curve commands \<open>c\<close> are appended to the curve slot of the
  two-element entry \<open>seg\<close>.
\<close>

definition merged :: "path list \<Rightarrow> path \<Rightarrow> path list" where
  "merged seg c = seg[1 := seg ! 1 @ c]"

text \<open>The number of entries of a returned segment array.\<close>

fun segment_count :: "js_error + segments \<Rightarrow> nat option" where
  "segment_count (Inr (JArray paths)) = Some (length paths)"
| "segment_count other = None"

text \<open>
  The commands of the Hermite evaluator, for points read from the index \<open>off\<close>
  on: the cubic from the point \<open>off\<close> to the point \<open>off + 1\<close> with the tangents \<open>0\<close>
  and \<open>1\<close>, and the smooth cubic to the point \<open>off + k\<close> with the tangent \<open>k\<close>.
\<close>

definition cubic_at :: "point list \<Rightarrow> vec list \<Rightarrow> nat \<Rightarrow> cmd" where
  "cubic_at points tangents off =
     CubicTo (p_left (points ! off) + v_x (tangents ! 0)) (p_top (points ! off) + v_y (tangents ! 0))
       (p_left (points ! (off + 1)) - v_x (tangents ! 1))
       (p_top (points ! (off + 1)) - v_y (tangents ! 1))
       (p_left (points ! (off + 1))) (p_top (points ! (off + 1)))"

definition smooth_at :: "point list \<Rightarrow> vec list \<Rightarrow> nat \<Rightarrow> nat \<Rightarrow> cmd" where
  "smooth_at points tangents off k =
     SmoothCubicTo (p_left (points ! (off + k)) - v_x (tangents ! k))
       (p_top (points ! (off + k)) - v_y (tangents ! k))
       (p_left (points ! (off + k))) (p_top (points ! (off + k)))"

text \<open>
  The invariant of the loop of \<open>curveHermite\<close>: before the iteration \<open>i = m + 2\<close>
  the smooth cubics \<open>2, \<dots>, m + 1\<close> have been appended to the path \<open>pre\<close>.
\<close>

definition hermite_inv ::
  "point list \<Rightarrow> vec list \<Rightarrow> nat \<Rightarrow> path \<Rightarrow> int \<Rightarrow> point option \<times> vec option \<times> int \<times> path \<Rightarrow> bool" where
  "hermite_inv points tangents off pre i s =
     (\<exists>m. i = int m + 2 \<and>
          s = (Some (points ! (off + (m + 1))), Some (tangents ! (m + 1)), int (off + (m + 2)),
               pre @ map (smooth_at points tangents off) [2..<m + 2]))"

text \<open>
  The quadratic segments at the two ends when the end points have no tangent: to
  the point \<open>off + 1\<close> with the first tangent, and from the point \<open>off + n\<close> to the
  point \<open>off + n + 1\<close> with the last of the \<open>n\<close> tangents.
\<close>

definition quad_first :: "point list \<Rightarrow> vec list \<Rightarrow> nat \<Rightarrow> cmd" where
  "quad_first points tangents off =
     QuadTo (p_left (points ! (off + 1)) - v_x (tangents ! 0) * 2 / 3)
       (p_top (points ! (off + 1)) - v_y (tangents ! 0) * 2 / 3)
       (p_left (points ! (off + 1))) (p_top (points ! (off + 1)))"

definition quad_last :: "point list \<Rightarrow> vec list \<Rightarrow> nat \<Rightarrow> cmd" where
  "quad_last points tangents off =
     (let n = length tangents in
      QuadTo (p_left (points ! (off + n)) + v_x (tangents ! (n - 1)) * 2 / 3)
        (p_top (points ! (off + n)) + v_y (tangents ! (n - 1)) * 2 / 3)
        (p_left (points ! (off + n + 1))) (p_top (points ! (off + n + 1))))"

text \<open>Tangent vectors for the sample points.\<close>

definition example_tangents :: "vec list" where
  "example_tangents =
     [\<lparr>v_x = 1, v_y = 1\<rparr>, \<lparr>v_x = 1, v_y = 0\<rparr>, \<lparr>v_x = 1, v_y = 2\<rparr>,
      \<lparr>v_x = 1, v_y = 1\<rparr>, \<lparr>v_x = 1, v_y = -1\<rparr>]"

text \<open>
  Wherever the secant \<open>d[k]\<close> of an index \<open>k\<close> below \<open>n\<close> is \<open>0\<close>, the slopes \<open>m[k]\<close>
  and \<open>m[k+1]\<close> are \<open>0\<close>.
\<close>

definition flat_zero :: "js_array \<Rightarrow> js_array \<Rightarrow> int \<Rightarrow> bool" where
  "flat_zero d m n = (\<forall>k. 0 \<le> k \<and> k < n \<and> d k = Some 0 \<longrightarrow> m k = Some 0 \<and> m (k + 1) = Some 0)"

text \<open>
  An array entry \<open>b\<close> that took the place of \<open>a\<close> is no larger in magnitude, and
  is \<open>0\<close> if \<open>a\<close> is; an entry never assigned stays so.
\<close>

definition shrinks :: "real option \<Rightarrow> real option \<Rightarrow> bool" where
  "shrinks a b =
     (case a of
        None \<Rightarrow> b = None
      | Some x \<Rightarrow> (case b of None \<Rightarrow> False | Some y \<Rightarrow> \<bar>y\<bar> \<le> \<bar>x\<bar> \<and> (x = 0 \<longrightarrow> y = 0)))"

text \<open>Secants, slopes and spacings of the first four sample points.\<close>

definition example_secants :: js_array where
  "example_secants = [0 \<mapsto> 1, 1 \<mapsto> 0, 2 \<mapsto> 4]"

definition example_slopes :: js_array where
  "example_slopes = [0 \<mapsto> 1, 1 \<mapsto> 1 / 2, 2 \<mapsto> 2, 3 \<mapsto> 4]"

text \<open>
  The secant slope between the points \<open>i\<close> and \<open>i + 1\<close> of the array, as the first
  loop of \<open>monotoneTangents\<close> computes it, and the array \<open>d\<close> after the iterations
  below \<open>b\<close> on a range that starts at \<open>from\<close>.
\<close>

definition secant :: "point list \<Rightarrow> nat \<Rightarrow> real" where
  "secant points i =
     (let den = p_left (points ! (i + 1)) - p_left (points ! i) in
      if \<bar>den\<bar> \<le> 1 / 10 ^ 12 then 0 else (p_top (points ! (i + 1)) - p_top (points ! i)) / den)"

definition secants_of :: "point list \<Rightarrow> int \<Rightarrow> int \<Rightarrow> js_array" where
  "secants_of points from b =
     (\<lambda>k. if 0 \<le> k \<and> k < b then Some (secant points (nat (from + k))) else None)"

text \<open>The entries below \<open>n\<close> of an array are assigned and not negative, or positive.\<close>

definition nonneg_upto :: "js_array \<Rightarrow> int \<Rightarrow> bool" where
  "nonneg_upto m n = (\<forall>i. 0 \<le> i \<and> i < n \<longrightarrow> (\<exists>v. m i = Some v \<and> 0 \<le> v))"

definition pos_upto :: "js_array \<Rightarrow> int \<Rightarrow> bool" where
  "pos_upto m n = (\<forall>i. 0 \<le> i \<and> i < n \<longrightarrow> (\<exists>v. m i = Some v \<and> 0 < v))"

text \<open>
  The tangent of the last loop at the index \<open>i\<close>: computed from the slope \<open>m[i]\<close> and
  the spacing \<open>dx[i]\<close>, with both components NaN when one of the two is
  \<^verbatim>\<open>undefined\<close>.
\<close>

definition nan_vec :: nvec where
  "nan_vec = \<lparr>n_x = None, n_y = None\<rparr>"

definition tangent_vec :: "real \<Rightarrow> real \<Rightarrow> nvec" where
  "tangent_vec mi dxi =
     \<lparr>n_x = Some (dxi / 3 / (1 + mi * mi)), n_y = Some (mi * dxi / 3 / (1 + mi * mi))\<rparr>"

definition tangent_at :: "js_array \<Rightarrow> js_array \<Rightarrow> int \<Rightarrow> nvec" where
  "tangent_at m dx i =
     (case m i of None \<Rightarrow> nan_vec
      | Some mi \<Rightarrow> (case dx i of None \<Rightarrow> nan_vec | Some dxi \<Rightarrow> tangent_vec mi dxi))"

text \<open>The entries below \<open>n\<close> of an array are assigned.\<close>

definition def_upto :: "js_array \<Rightarrow> int \<Rightarrow> bool" where
  "def_upto m n = (\<forall>i. 0 \<le> i \<and> i < n \<longrightarrow> m i \<noteq> None)"

text \<open>
  On the range \<open>[from, to]\<close> the x-coordinates increase strictly and the
  y-coordinates do not decrease.
\<close>

definition rising :: "point list \<Rightarrow> int \<Rightarrow> int \<Rightarrow> bool" where
  "rising points from to =
     (\<forall>k. from \<le> k \<and> k < to \<longrightarrow>
          p_left (points ! nat k) < p_left (points ! nat (k + 1)) \<and>
          p_top (points ! nat k) \<le> p_top (points ! nat (k + 1)))"

text \<open>The four points of the example with a flat pair.\<close>

definition flat_pair_points :: "point list" where
  "flat_pair_points =
     [\<lparr>p_left = 0, p_top = 0\<rparr>, \<lparr>p_left = 1, p_top = 1\<rparr>, \<lparr>p_left = 2, p_top = 1\<rparr>,
      \<lparr>p_left = 3, p_top = 5\<rparr>]"

text \<open>Two points, for the range that holds the first of them only.\<close>

definition two_points :: "point list" where
  "two_points = [\<lparr>p_left = 0, p_top = 0\<rparr>, \<lparr>p_left = 3, p_top = 3\<rparr>]"

section \<open>Basic facts about the helpers and loops\<close>

lemma bind_js_Inr [simp]: "bind_js (Inr v) f = f v"
  by (simp add: bind_js_def)

lemma bind_js_Inl [simp]: "bind_js (Inl e) f = Inl e"
  by (simp add: bind_js_def)

lemma deref_Some [simp]: "deref (Some a) = Inr a"
  by (simp add: deref_def)

lemma deref_None [simp]: "deref None = Inl TypeError"
  by (simp add: deref_def)

lemma js_get_in_range: "0 \<le> i \<Longrightarrow> i < int (length xs) \<Longrightarrow> js_get xs i = Some (xs ! nat i)"
  by (simp add: js_get_def)

lemma for_loop_done: "n \<le> i \<Longrightarrow> for_loop i n body s = Inr s"
  by (simp add: for_loop.simps)

lemma for_loop_step:
  "i < n \<Longrightarrow> body i s = Inr s' \<Longrightarrow> for_loop i n body s = for_loop (i + 1) n body s'"
  by (subst for_loop.simps) simp

lemma for_loop_fail: "i < n \<Longrightarrow> body i s = Inl e \<Longrightarrow> for_loop i n body s = Inl e"
  by (subst for_loop.simps) simp

text \<open>Total correctness: an invariant that every iteration keeps, and no iteration throws.\<close>

lemma for_loop_total:
  assumes "I i s"
    and "\<And>j t. i \<le> j \<Longrightarrow> j < n \<Longrightarrow> I j t \<Longrightarrow> \<exists>t'. body j t = Inr t' \<and> I (j + 1) t'"
  shows "\<exists>t. for_loop i n body s = Inr t \<and> I (max i n) t"
  using assms
proof (induction "nat (n - i)" arbitrary: i s)
  case 0
  then have "n \<le> i" by simp
  with 0 show ?case by (simp add: for_loop_done max_def)
next
  case (Suc k)
  then have lt: "i < n" by linarith
  from Suc.prems(2)[OF order_refl lt Suc.prems(1)]
  obtain s' where b: "body i s = Inr s'" and I': "I (i + 1) s'" by blast
  have "k = nat (n - (i + 1))" using Suc.hyps(2) by linarith
  from Suc.hyps(1)[OF this I'] Suc.prems(2)
  obtain t where "for_loop (i + 1) n body s' = Inr t" "I (max (i + 1) n) t"
    by (metis add_increasing2 linorder_not_less nle_le zero_less_one)
  with lt b show ?case by (simp add: for_loop_step max_def)
qed

text \<open>Partial correctness: what holds of the state when the loop returns.\<close>

lemma for_loop_partial:
  assumes "for_loop i n body s = Inr t" and "I i s"
    and "\<And>j u u'. i \<le> j \<Longrightarrow> j < n \<Longrightarrow> I j u \<Longrightarrow> body j u = Inr u' \<Longrightarrow> I (j + 1) u'"
  shows "I (max i n) t"
  using assms
proof (induction "nat (n - i)" arbitrary: i s)
  case 0
  then have "n \<le> i" by simp
  with 0 show ?case by (simp add: for_loop_done max_def)
next
  case (Suc k)
  then have lt: "i < n" by linarith
  obtain s' where b: "body i s = Inr s'"
    using Suc.prems(1) lt by (cases "body i s") (simp_all add: for_loop_fail)
  have I': "I (i + 1) s'" using Suc.prems(3)[OF order_refl lt Suc.prems(2) b] .
  have k: "k = nat (n - (i + 1))" using Suc.hyps(2) by linarith
  have r: "for_loop (i + 1) n body s' = Inr t" using Suc.prems(1) lt b by (simp add: for_loop_step)
  have "I (max (i + 1) n) t"
  proof (rule Suc.hyps(1)[OF k r I'])
    fix j u u' assume "i + 1 \<le> j" "j < n" "I j u" "body j u = Inr u'"
    then show "I (j + 1) u'" using Suc.prems(3)[of j u u'] by simp
  qed
  with lt show ?case by (simp add: max_def)
qed

text \<open>What the loop throws, some iteration throws, from a state the invariant describes.\<close>

lemma for_loop_error:
  assumes "for_loop i n body s = Inl e" and "I i s"
    and "\<And>j u u'. i \<le> j \<Longrightarrow> j < n \<Longrightarrow> I j u \<Longrightarrow> body j u = Inr u' \<Longrightarrow> I (j + 1) u'"
  shows "\<exists>j u. i \<le> j \<and> j < n \<and> I j u \<and> body j u = Inl e"
  using assms
proof (induction "nat (n - i)" arbitrary: i s)
  case 0
  then have "n \<le> i" by simp
  with 0 show ?case by (simp add: for_loop_done)
next
  case (Suc k)
  then have lt: "i < n" by linarith
  show ?case
  proof (cases "body i s")
    case (Inl e')
    with Suc.prems(1) lt have "e' = e" by (simp add: for_loop_fail)
    with Inl lt Suc.prems(2) show ?thesis by blast
  next
    case (Inr s')
    have I': "I (i + 1) s'" using Suc.prems(3)[OF order_refl lt Suc.prems(2) Inr] .
    have k: "k = nat (n - (i + 1))" using Suc.hyps(2) by linarith
    have r: "for_loop (i + 1) n body s' = Inl e" using Suc.prems(1) lt Inr by (simp add: for_loop_step)
    have "\<exists>j u. i + 1 \<le> j \<and> j < n \<and> I j u \<and> body j u = Inl e"
    proof (rule Suc.hyps(1)[OF k r I'])
      fix j u u' assume "i + 1 \<le> j" "j < n" "I j u" "body j u = Inr u'"
      then show "I (j + 1) u'" using Suc.prems(3)[of j u u'] by simp
    qed
    then show ?thesis by (meson add_increasing2 zero_le_one order_trans linorder_le_cases add.commute zle_add1_eq_le less_le_not_le)
  qed
qed

section \<open>Ranges too short and tangent counts that do not fit\<close>

lemma short_range_continuous:
  assumes "fst (range_of points r) \<le> 2"
  shows "curveBasis points r = Inr []" "curveCardinal points tension r = Inr []"
    "curveMonotone points r = Inr []"
  using assms
  by (cases "range_of points r"; simp add: curveBasis_def curveCardinal_def curveMonotone_def)+

lemma short_range_segmented:
  assumes "fst (range_of points r) \<le> 2"
  shows "curveBasisSegments points r = Inr (JString [])"
    "curveCardinalSegments points tension r = Inr (JString [])"
    "curveMonotoneSegments points r = Inr (JString [])"
  using assms
  by (cases "range_of points r";
      simp add: curveBasisSegments_def curveCardinalSegments_def curveMonotoneSegments_def)+

text \<open>
  Claim C2. On a range of two points the continuous drivers return the empty
  path, and the segmented drivers return the empty string, which is not the empty
  array (the lines are marked \<^verbatim>\<open>// BUG?\<close> in the source, and
  \<open>curveHermiteSegments\<close> returns \<^verbatim>\<open>[]\<close> in the same situation).
\<close>

theorem segmented_drivers_short_range_string:
  "curveBasis [\<lparr>p_left = 0, p_top = 0\<rparr>, \<lparr>p_left = 1, p_top = 1\<rparr>] None = Inr []
   \<and> curveCardinal [\<lparr>p_left = 0, p_top = 0\<rparr>, \<lparr>p_left = 1, p_top = 1\<rparr>] 0 None = Inr []
   \<and> curveMonotone [\<lparr>p_left = 0, p_top = 0\<rparr>, \<lparr>p_left = 1, p_top = 1\<rparr>] None = Inr []
   \<and> curveBasisSegments [\<lparr>p_left = 0, p_top = 0\<rparr>, \<lparr>p_left = 1, p_top = 1\<rparr>] None = Inr (JString [])
   \<and> curveCardinalSegments [\<lparr>p_left = 0, p_top = 0\<rparr>, \<lparr>p_left = 1, p_top = 1\<rparr>] 0 None = Inr (JString [])
   \<and> curveMonotoneSegments [\<lparr>p_left = 0, p_top = 0\<rparr>, \<lparr>p_left = 1, p_top = 1\<rparr>] None = Inr (JString [])
   \<and> curveBasisSegments [\<lparr>p_left = 0, p_top = 0\<rparr>, \<lparr>p_left = 1, p_top = 1\<rparr>] None \<noteq> Inr (JArray [])
   \<and> curveCardinalSegments [\<lparr>p_left = 0, p_top = 0\<rparr>, \<lparr>p_left = 1, p_top = 1\<rparr>] 0 None \<noteq> Inr (JArray [])
   \<and> curveMonotoneSegments [\<lparr>p_left = 0, p_top = 0\<rparr>, \<lparr>p_left = 1, p_top = 1\<rparr>] None \<noteq> Inr (JArray [])"
  by (simp add: curveBasis_def curveCardinal_def curveMonotone_def curveBasisSegments_def
      curveCardinalSegments_def curveMonotoneSegments_def range_of_def)

text \<open>
  Claim C4. With \<open>L\<close> the length of the range and \<open>T\<close> the number of tangents,
  \<open>T \<noteq> L\<close> and \<open>T \<noteq> L - 2\<close> make \<open>curveHermite\<close> return the empty path and
  \<open>curveHermiteSegments\<close> the empty array; both return, neither throws, whatever
  the points, the tangents and the range are.
\<close>

theorem hermite_length_mismatch_empty:
  assumes "int (length tangents) \<noteq> fst (range_of points r)"
    and "int (length tangents) \<noteq> fst (range_of points r) - 2"
  shows "curveHermite points tangents r = Inr [] \<and> curveHermiteSegments points tangents r = Inr []"
proof -
  obtain L "from" to where R: "range_of points r = (L, from, to)"
    by (cases "range_of points r") auto
  with assms have "L \<noteq> int (length tangents)" "L \<noteq> int (length tangents) + 2" by auto
  with R show ?thesis by (simp add: curveHermite_def curveHermiteSegments_def)
qed

theorem hermite_length_mismatch_empty_witness:
  "int (length [\<lparr>v_x = 1, v_y = 1\<rparr>, \<lparr>v_x = 1, v_y = 0\<rparr>])
     \<noteq> fst (range_of [\<lparr>p_left = 0, p_top = 0\<rparr>, \<lparr>p_left = 1, p_top = 1\<rparr>, \<lparr>p_left = 2, p_top = 1\<rparr>] None)
   \<and> int (length [\<lparr>v_x = 1, v_y = 1\<rparr>, \<lparr>v_x = 1, v_y = 0\<rparr>])
     \<noteq> fst (range_of [\<lparr>p_left = 0, p_top = 0\<rparr>, \<lparr>p_left = 1, p_top = 1\<rparr>, \<lparr>p_left = 2, p_top = 1\<rparr>] None) - 2
   \<and> curveHermite [\<lparr>p_left = 0, p_top = 0\<rparr>, \<lparr>p_left = 1, p_top = 1\<rparr>, \<lparr>p_left = 2, p_top = 1\<rparr>]
        [\<lparr>v_x = 1, v_y = 1\<rparr>, \<lparr>v_x = 1, v_y = 0\<rparr>] None = Inr []
   \<and> curveHermiteSegments [\<lparr>p_left = 0, p_top = 0\<rparr>, \<lparr>p_left = 1, p_top = 1\<rparr>, \<lparr>p_left = 2, p_top = 1\<rparr>]
        [\<lparr>v_x = 1, v_y = 1\<rparr>, \<lparr>v_x = 1, v_y = 0\<rparr>] None = Inr []"
proof -
  have h: "int (length [\<lparr>v_x = 1, v_y = 1\<rparr>, \<lparr>v_x = 1, v_y = 0\<rparr>])
     \<noteq> fst (range_of [\<lparr>p_left = 0, p_top = 0\<rparr>, \<lparr>p_left = 1, p_top = 1\<rparr>, \<lparr>p_left = 2, p_top = 1\<rparr>] None)"
    "int (length [\<lparr>v_x = 1, v_y = 1\<rparr>, \<lparr>v_x = 1, v_y = 0\<rparr>])
     \<noteq> fst (range_of [\<lparr>p_left = 0, p_top = 0\<rparr>, \<lparr>p_left = 1, p_top = 1\<rparr>, \<lparr>p_left = 2, p_top = 1\<rparr>] None) - 2"
    by (simp_all add: range_of_def)
  from hermite_length_mismatch_empty[OF h] h show ?thesis by blast
qed

section \<open>cardinalTangents\<close>

lemma tangent_of_Some:
  "tangent_of a (Some p) (Some q) =
     Inr \<lparr>v_x = a * (p_left q - p_left p), v_y = a * (p_top q - p_top p)\<rparr>"
  by (simp add: tangent_of_def)

lemma js_get_nat: "n < length xs \<Longrightarrow> js_get xs (int n) = Some (xs ! n)"
  by (simp add: js_get_def)

lemma cardinal_body_inv:
  assumes "to < int (length points)" "j < to + 1" "cardinal_inv points a nf j s"
  shows "\<exists>s'. cardinalTangents_body points a j s = Inr s' \<and> cardinal_inv points a nf (j + 1) s'"
proof -
  from assms(3) obtain m where j: "j = int m + 3" and m: "nf \<le> m"
    and s: "s = (Some (points ! m), Some (points ! (m + 1)), Some (points ! (m + 2)),
               map (chord a points) [nf + 1..<m + 1])"
    unfolding cardinal_inv_def by blast
  have "m + 3 < length points" using assms(1,2) j by linarith
  then have g: "js_get points j = Some (points ! (m + 3))"
    unfolding j by (simp add: js_get_def nat_add_distrib)
  have b: "cardinalTangents_body points a j s
             = Inr (Some (points ! (m + 1)), Some (points ! (m + 2)), Some (points ! (m + 3)),
                    map (chord a points) [nf + 1..<m + 1] @ [chord a points (m + 1)])"
    unfolding s cardinalTangents_body_def by (simp add: tangent_of_Some g chord_def)
  have "cardinal_inv points a nf (j + 1)
          (Some (points ! (m + 1)), Some (points ! (m + 2)), Some (points ! (m + 3)),
           map (chord a points) [nf + 1..<m + 1] @ [chord a points (m + 1)])"
    unfolding cardinal_inv_def using j m
    by (intro exI[of _ "Suc m"]) (simp add: numeral_3_eq_3)
  with b show ?thesis by blast
qed

lemma cardinalTangents_eq:
  assumes "range_of points r = (L, from, to)" "3 \<le> L" "0 \<le> from" "to < int (length points)"
  shows "cardinalTangents points tension r
           = Inr (map (chord ((1 - tension) / 2) points) [nat from + 1..<nat to])"
proof -
  define a where "a = (1 - tension) / 2"
  define nf where "nf = nat from"
  have L: "L = to - from + 1"
    using assms(1) by (auto simp: range_of_def split: option.splits)
  have f: "from = int nf" using assms(3) by (simp add: nf_def)
  have len: "nf + 2 < length points" using assms L f by linarith
  let ?s0 = "(js_get points from, js_get points (from + 1), js_get points (from + 2), [])"
  have g: "js_get points from = Some (points ! nf)"
    "js_get points (from + 1) = Some (points ! (nf + 1))"
    "js_get points (from + 2) = Some (points ! (nf + 2))"
    unfolding f using len by (simp_all add: js_get_def nat_add_distrib)
  have i0: "cardinal_inv points a nf (from + 3) ?s0"
    unfolding cardinal_inv_def g by (intro exI[of _ nf]) (simp add: f)
  have "\<exists>t. for_loop (from + 3) (to + 1) (cardinalTangents_body points a) ?s0 = Inr t
           \<and> cardinal_inv points a nf (max (from + 3) (to + 1)) t"
    by (rule for_loop_total[where I = "cardinal_inv points a nf", OF i0])
       (rule cardinal_body_inv[OF assms(4)]; assumption)
  moreover have "max (from + 3) (to + 1) = to + 1" using assms(2) L by simp
  ultimately obtain t where t: "for_loop (from + 3) (to + 1) (cardinalTangents_body points a) ?s0 = Inr t"
    and it: "cardinal_inv points a nf (to + 1) t"
    by auto
  from it obtain m where m: "to + 1 = int m + 3" "nf \<le> m"
    and tt: "t = (Some (points ! m), Some (points ! (m + 1)), Some (points ! (m + 2)),
               map (chord a points) [nf + 1..<m + 1])"
    unfolding cardinal_inv_def by blast
  have nt: "nat to = Suc (Suc m)" using m(1) by linarith
  have "cardinalTangents points tension r
          = Inr (map (chord a points) [nf + 1..<m + 1] @ [chord a points (m + 1)])"
    unfolding cardinalTangents_def assms(1) using t
    by (simp add: a_def[symmetric] tt tangent_of_Some chord_def)
  also have "map (chord a points) [nf + 1..<m + 1] @ [chord a points (m + 1)]
               = map (chord a points) [nat from + 1..<nat to]"
    unfolding nt nf_def[symmetric] using m(2) by simp
  finally show ?thesis unfolding a_def .
qed

text \<open>
  Claim C7. On a range of \<open>L \<ge> 3\<close> points that lies inside the array,
  \<open>cardinalTangents\<close> returns \<open>L - 2\<close> tangents, and the \<open>i\<close>-th of them
  (\<open>1 \<le> i \<le> L - 2\<close>) is \<open>a * (p[i+1] - p[i-1])\<close> with \<open>a = (1 - tension) / 2\<close> and
  \<open>p[i]\<close> the \<open>i\<close>-th point of the range, the point \<open>from + i\<close> of the array.
\<close>

theorem cardinalTangents_interior:
  assumes "range_of points r = (L, from, to)" "3 \<le> L" "0 \<le> from" "to < int (length points)"
  shows "\<exists>ts. cardinalTangents points tension r = Inr ts \<and> int (length ts) = L - 2 \<and>
           (\<forall>i. 1 \<le> i \<and> i \<le> nat (L - 2) \<longrightarrow>
                ts ! (i - 1) = chord ((1 - tension) / 2) points (nat from + i))"
proof -
  have L: "L = to - from + 1"
    using assms(1) by (auto simp: range_of_def split: option.splits)
  let ?ts = "map (chord ((1 - tension) / 2) points) [nat from + 1..<nat to]"
  have "int (length ?ts) = L - 2" using assms L by simp
  moreover have "?ts ! (i - 1) = chord ((1 - tension) / 2) points (nat from + i)"
    if "1 \<le> i \<and> i \<le> nat (L - 2)" for i
  proof -
    have "i - 1 < nat to - (nat from + 1)" using that assms L by linarith
    then show ?thesis using that by simp
  qed
  ultimately show ?thesis
    using cardinalTangents_eq[OF assms, of tension] by blast
qed

theorem cardinalTangents_interior_witness:
  "range_of example_points (Some (1, 4)) = (4, 1, 4) \<and> (3::int) \<le> 4 \<and> (0::int) \<le> 1
   \<and> 4 < int (length example_points)
   \<and> (\<exists>ts. cardinalTangents example_points 0 (Some (1, 4)) = Inr ts \<and> int (length ts) = 2
         \<and> ts ! 0 = \<lparr>v_x = 1, v_y = 2\<rparr> \<and> ts ! 1 = \<lparr>v_x = 1, v_y = 3 / 2\<rparr>)"
proof -
  have h: "range_of example_points (Some (1, 4)) = (4, 1, 4)" "(3::int) \<le> 4" "(0::int) \<le> 1"
    "4 < int (length example_points)"
    by (simp_all add: range_of_def example_points_def)
  from cardinalTangents_interior[OF h, of 0]
  obtain ts where ts: "cardinalTangents example_points 0 (Some (1, 4)) = Inr ts"
    "int (length ts) = 4 - 2"
    and c: "\<And>i. 1 \<le> i \<and> i \<le> nat (4 - 2) \<Longrightarrow>
              ts ! (i - 1) = chord ((1 - 0) / 2) example_points (nat 1 + i)"
    by blast
  have "ts ! 0 = \<lparr>v_x = 1, v_y = 2\<rparr>"
    using c[of 1] by (simp add: chord_def example_points_def)
  moreover have "ts ! 1 = \<lparr>v_x = 1, v_y = 3 / 2\<rparr>"
    using c[of 2] by (simp add: chord_def example_points_def)
  ultimately show ?thesis using h ts by (intro conjI exI[of _ ts]) simp_all
qed

text \<open>
  Claim C8. With tension \<open>1\<close> the \<open>L - 2\<close> tangents of such a range are all the
  zero vector.
\<close>

theorem cardinalTangents_tension_one:
  assumes "range_of points r = (L, from, to)" "3 \<le> L" "0 \<le> from" "to < int (length points)"
  shows "cardinalTangents points 1 r = Inr (replicate (nat (L - 2)) \<lparr>v_x = 0, v_y = 0\<rparr>)"
proof -
  have L: "L = to - from + 1"
    using assms(1) by (auto simp: range_of_def split: option.splits)
  have z: "chord ((1 - 1) / 2) points = (\<lambda>i. \<lparr>v_x = 0, v_y = 0\<rparr>)"
    by (rule ext) (simp add: chord_def)
  have n: "length [nat from + 1..<nat to] = nat (L - 2)" using assms L by simp
  have "map (chord ((1 - 1) / 2) points) [nat from + 1..<nat to]
          = replicate (nat (L - 2)) \<lparr>v_x = 0, v_y = 0\<rparr>"
    unfolding z map_replicate_const n ..
  with cardinalTangents_eq[OF assms, of 1] show ?thesis by simp
qed

theorem cardinalTangents_tension_one_witness:
  "range_of example_points None = (5, 0, 4) \<and> (3::int) \<le> 5 \<and> (0::int) \<le> 0
   \<and> 4 < int (length example_points)
   \<and> cardinalTangents example_points 1 None
       = Inr [\<lparr>v_x = 0, v_y = 0\<rparr>, \<lparr>v_x = 0, v_y = 0\<rparr>, \<lparr>v_x = 0, v_y = 0\<rparr>]"
proof -
  have h: "range_of example_points None = (5, 0, 4)" "(3::int) \<le> 5" "(0::int) \<le> 0"
    "4 < int (length example_points)"
    by (simp_all add: range_of_def example_points_def)
  have "replicate (nat (5 - 2)) \<lparr>v_x = 0::real, v_y = 0::real\<rparr>
          = [\<lparr>v_x = 0, v_y = 0\<rparr>, \<lparr>v_x = 0, v_y = 0\<rparr>, \<lparr>v_x = 0, v_y = 0\<rparr>]"
    by (simp add: numeral_3_eq_3)
  with cardinalTangents_tension_one[OF h] h show ?thesis by simp
qed

section \<open>curveBasis and curveBasisSegments against the reference definition\<close>

lemma windows4_eq: "windows4 xs = map (window_at xs) [0..<length xs - 3]"
proof (induction xs rule: windows4.induct)
  case (1 a b c d xs)
  have "map (window_at (a # b # c # d # xs)) [0..<Suc (length xs)]
          = window_at (a # b # c # d # xs) 0
            # map (\<lambda>k. window_at (a # b # c # d # xs) (Suc k)) [0..<length xs]"
    by (rule map_upt_Suc)
  also have "(\<lambda>k. window_at (a # b # c # d # xs) (Suc k)) = window_at (b # c # d # xs)"
    by (rule ext) (simp add: window_at_def)
  finally show ?case using 1 by (simp add: window_at_def)
qed (simp_all)

lemma pathBasis_Some: "pathBasis (Some a) (Some b) (Some c) (Some d) = Inr (convert a b c d)"
  by (simp add: pathBasis_def)

lemma pathBasis_segment_Some:
  "pathBasis_segment (Some a) (Some b) (Some c) (Some d) = Inr (convert_segment a b c d)"
  by (simp add: pathBasis_segment_def)

lemma basis_reference_eq:
  "basis_reference ps = concat (map (window_cmd (pad_ends ps)) [0..<length ps + 1])"
proof -
  have "length (pad_ends ps) - 3 = length ps + 1" by (simp add: pad_ends_def)
  moreover have "(\<lambda>(a, b, c, d). convert a b c d) \<circ> window_at (pad_ends ps)
                   = window_cmd (pad_ends ps)"
    by (rule ext) (simp add: window_cmd_def)
  ultimately show ?thesis
    by (simp add: basis_reference_def windows4_eq window_cmd_def)
qed

lemma window_cmd_Suc:
  "window_cmd pad (t + 1) = convert (pad ! (t + 1)) (pad ! (t + 2)) (pad ! (t + 3)) (pad ! (t + 4))"
  by (simp add: window_cmd_def window_at_def eval_nat_numeral)

lemma basis_body_inv:
  assumes get: "\<And>k. k < n + 3 \<Longrightarrow> js_get points (from + int k) = Some (pad ! (k + 2))"
    and "to = from + int n + 2" "j < to + 1" "basis_inv pad from j s"
  shows "\<exists>s'. curveBasis_body points j s = Inr s' \<and> basis_inv pad from (j + 1) s'"
proof -
  from assms(4) obtain t where j: "j = from + 2 + int t"
    and s: "s = ((Some (pad ! t), Some (pad ! (t + 1)), Some (pad ! (t + 2)), Some (pad ! (t + 3))),
               concat (map (window_cmd pad) [0..<t + 1]))"
    unfolding basis_inv_def by blast
  have lt: "t + 2 < n + 3" using assms(2,3) j by linarith
  have e1: "from + int (t + 2) = j" using j by simp
  have e2: "t + 2 + 2 = t + 4" by simp
  have g: "js_get points j = Some (pad ! (t + 4))"
    using get[OF lt] unfolding e1 e2 .
  have b: "curveBasis_body points j s
             = Inr ((Some (pad ! (t + 1)), Some (pad ! (t + 2)), Some (pad ! (t + 3)), Some (pad ! (t + 4))),
                    concat (map (window_cmd pad) [0..<t + 1]) @ window_cmd pad (t + 1))"
    unfolding s curveBasis_body_def window_cmd_Suc
    by (simp add: g pathBasis_Some Let_def)
  have e3: "j + 1 = from + 2 + int (t + 1)" using j by simp
  have e4: "t + 1 + 1 = t + 2" "t + 1 + 2 = t + 3" "t + 1 + 3 = t + 4" by simp_all
  have e5: "[0..<t + 2] = [0..<t + 1] @ [t + 1]" by (simp add: eval_nat_numeral)
  have "basis_inv pad from (j + 1)
          ((Some (pad ! (t + 1)), Some (pad ! (t + 2)), Some (pad ! (t + 3)), Some (pad ! (t + 4))),
           concat (map (window_cmd pad) [0..<t + 1]) @ window_cmd pad (t + 1))"
    unfolding basis_inv_def
    by (rule exI[of _ "t + 1"]) (simp only: e3 e4 e5 map_append concat_append list.map concat.simps append_Nil2 simp_thms)
  with b show ?thesis by blast
qed

lemma curveBasis_pad:
  assumes R: "range_of points r = (int n + 3, from, to)"
    and get: "\<And>k. k < n + 3 \<Longrightarrow> js_get points (from + int k) = Some (pad ! (k + 2))"
    and lo: "pad ! 0 = pad ! 2" "pad ! 1 = pad ! 2"
    and hi: "pad ! (n + 5) = pad ! (n + 4)" "pad ! (n + 6) = pad ! (n + 4)"
  shows "curveBasis points r = Inr (concat (map (window_cmd pad) [0..<n + 4]))"
proof -
  have to: "to = from + int n + 2"
    using R by (auto simp: range_of_def split: option.splits)
  have g0: "js_get points from = Some (pad ! 2)"
    using get[of 0] by (simp add: eval_nat_numeral)
  have g1: "js_get points (from + 1) = Some (pad ! 3)"
    using get[of 1] by (simp add: eval_nat_numeral)
  let ?s0 = "((Some (pad ! 2), Some (pad ! 2), Some (pad ! 2), Some (pad ! 3)),
              convert (pad ! 2) (pad ! 2) (pad ! 2) (pad ! 3))"
  let ?rest = "\<lambda>s. case s of ((p0, p1, p2, p3), path) \<Rightarrow>
             bind_js (pathBasis p1 p2 p3 p3) (\<lambda>c1.
             bind_js (pathBasis p2 p3 p3 p3) (\<lambda>c2.
             Inr (path @ c1 @ c2)))"
  have A: "curveBasis points r
             = bind_js (for_loop (from + 2) (to + 1) (curveBasis_body points) ?s0) ?rest"
    unfolding curveBasis_def R by (simp add: g0 g1 pathBasis_Some Let_def)
  have i0: "basis_inv pad from (from + 2) ?s0"
    unfolding basis_inv_def using lo
    by (intro exI[of _ 0]) (simp add: window_cmd_def window_at_def eval_nat_numeral)
  have "\<exists>u. for_loop (from + 2) (to + 1) (curveBasis_body points) ?s0 = Inr u
           \<and> basis_inv pad from (max (from + 2) (to + 1)) u"
    by (rule for_loop_total[where I = "basis_inv pad from", OF i0])
       (rule basis_body_inv[OF get to]; assumption)
  moreover have "max (from + 2) (to + 1) = to + 1" using to by simp
  ultimately obtain u where u: "for_loop (from + 2) (to + 1) (curveBasis_body points) ?s0 = Inr u"
    and iu: "basis_inv pad from (to + 1) u"
    by auto
  from iu obtain t where t: "to + 1 = from + 2 + int t"
    and uu: "u = ((Some (pad ! t), Some (pad ! (t + 1)), Some (pad ! (t + 2)), Some (pad ! (t + 3))),
               concat (map (window_cmd pad) [0..<t + 1]))"
    unfolding basis_inv_def by blast
  have tn: "t = n + 1" using t to by linarith
  have hi': "pad ! (t + 4) = pad ! (t + 3)" "pad ! (t + 5) = pad ! (t + 3)"
    using hi unfolding tn by (simp_all add: eval_nat_numeral)
  have w1: "convert (pad ! (t + 1)) (pad ! (t + 2)) (pad ! (t + 3)) (pad ! (t + 3))
              = window_cmd pad (t + 1)"
    using hi' by (simp add: window_cmd_def window_at_def eval_nat_numeral)
  have w2: "convert (pad ! (t + 2)) (pad ! (t + 3)) (pad ! (t + 3)) (pad ! (t + 3))
              = window_cmd pad (t + 2)"
    using hi' by (simp add: window_cmd_def window_at_def eval_nat_numeral)
  have e: "[0..<n + 4] = [0..<t + 1] @ [t + 1, t + 2]"
    unfolding tn by (simp add: eval_nat_numeral)
  have "curveBasis points r
          = Inr (concat (map (window_cmd pad) [0..<t + 1]) @ window_cmd pad (t + 1)
                 @ window_cmd pad (t + 2))"
    unfolding A u uu using w1 w2 by (simp add: pathBasis_Some)
  then show ?thesis unfolding e by simp
qed

lemma pad_ends_nth:
  assumes "ps \<noteq> []"
  shows "pad_ends ps ! 0 = ps ! 0" "pad_ends ps ! 1 = ps ! 0"
    "k < length ps \<Longrightarrow> pad_ends ps ! (k + 2) = ps ! k"
    "pad_ends ps ! (length ps + 2) = ps ! (length ps - 1)"
    "pad_ends ps ! (length ps + 3) = ps ! (length ps - 1)"
  using assms
  by (simp_all add: pad_ends_def hd_conv_nth last_conv_nth nth_append eval_nat_numeral)

lemma points_in_range_length:
  assumes "0 \<le> from" "to < int (length points)" "from \<le> to + 1"
  shows "length (points_in_range points from to) = nat (to - from + 1)"
  using assms by (simp add: points_in_range_def)

lemma points_in_range_nth:
  assumes "0 \<le> from" "to < int (length points)" "k < nat (to - from + 1)"
  shows "points_in_range points from to ! k = points ! (nat from + k)"
  using assms by (simp add: points_in_range_def)

lemma kind_of_window_cmd: "map kind_of (window_cmd xs k) = [Cubic]"
  by (simp add: window_cmd_def window_at_def convert_def Let_def)

lemma kind_of_windows:
  "map kind_of (concat (map (window_cmd xs) ks)) = replicate (length ks) Cubic"
  by (induction ks) (simp_all add: kind_of_window_cmd)

lemma curveBasis_reference:
  assumes R: "range_of points r = (L, from, to)" and L3: "3 \<le> L"
    and lo: "0 \<le> from" and hi: "to < int (length points)"
  shows "curveBasis points r = Inr (basis_reference (points_in_range points from to))"
    and "length (points_in_range points from to) = nat L"
proof -
  define n where "n = nat (L - 3)"
  define sl where "sl = points_in_range points from to"
  have L: "L = to - from + 1"
    using R by (auto simp: range_of_def split: option.splits)
  have Ln: "L = int n + 3" using L3 by (simp add: n_def)
  have len: "length sl = n + 3"
    unfolding sl_def using points_in_range_length[OF lo hi] L Ln by simp
  then have ne: "sl \<noteq> []" by auto
  have nth: "sl ! k = points ! (nat from + k)" if "k < n + 3" for k
    unfolding sl_def using points_in_range_nth[OF lo hi, of k] that L Ln by simp
  have get: "js_get points (from + int k) = Some (pad_ends sl ! (k + 2))" if "k < n + 3" for k
  proof -
    have "nat (from + int k) = nat from + k" using lo by (simp add: nat_add_distrib)
    moreover have "from + int k < int (length points)" using that hi L Ln by linarith
    moreover have "0 \<le> from + int k" using lo by simp
    ultimately have "js_get points (from + int k) = Some (points ! (nat from + k))"
      by (simp add: js_get_def)
    with nth[OF that] pad_ends_nth(3)[OF ne, of k] that len show ?thesis by simp
  qed
  have p0: "pad_ends sl ! 0 = pad_ends sl ! 2" "pad_ends sl ! 1 = pad_ends sl ! 2"
    using pad_ends_nth(1,2)[OF ne] pad_ends_nth(3)[OF ne, of 0] len
    by (simp_all add: eval_nat_numeral)
  have e: "n + 5 = length sl + 2" "n + 6 = length sl + 3" "n + 4 = (n + 2) + 2"
    "length sl - 1 = n + 2"
    using len by simp_all
  have p1: "pad_ends sl ! (n + 5) = pad_ends sl ! (n + 4)" "pad_ends sl ! (n + 6) = pad_ends sl ! (n + 4)"
    using pad_ends_nth(4,5)[OF ne] pad_ends_nth(3)[OF ne, of "n + 2"] len
    unfolding e by simp_all
  have "curveBasis points r = Inr (concat (map (window_cmd (pad_ends sl)) [0..<n + 4]))"
    by (rule curveBasis_pad[OF R[unfolded Ln] get p0 p1])
  also have "n + 4 = length sl + 1" using len by simp
  finally show "curveBasis points r = Inr (basis_reference (points_in_range points from to))"
    by (simp add: basis_reference_eq sl_def)
  show "length (points_in_range points from to) = nat L"
    using len Ln by (simp add: sl_def)
qed

text \<open>
  Claim C5. On a range of \<open>L \<ge> 3\<close> points inside the array, \<open>curveBasis\<close> returns
  the path of the reference definition on the points of the range: one
  \<open>CubicTo\<close> per window of four of the padded sequence, \<open>L + 1\<close> commands, the
  first window \<open>(p0, p0, p0, p1)\<close> and the last one
  \<open>(p[L-2], p[L-1], p[L-1], p[L-1])\<close>.
\<close>

theorem curveBasis_refines_reference:
  assumes "range_of points r = (L, from, to)" "3 \<le> L" "0 \<le> from" "to < int (length points)"
  shows "curveBasis points r = Inr (basis_reference (points_in_range points from to))
    \<and> int (length (basis_reference (points_in_range points from to))) = L + 1
    \<and> map kind_of (basis_reference (points_in_range points from to)) = replicate (nat (L + 1)) Cubic
    \<and> hd (windows4 (pad_ends (points_in_range points from to)))
        = (points ! nat from, points ! nat from, points ! nat from, points ! nat (from + 1))
    \<and> last (windows4 (pad_ends (points_in_range points from to)))
        = (points ! nat (to - 1), points ! nat to, points ! nat to, points ! nat to)"
proof -
  define sl where "sl = points_in_range points from to"
  define n where "n = nat (L - 3)"
  have L: "L = to - from + 1"
    using assms(1) by (auto simp: range_of_def split: option.splits)
  have len: "length sl = n + 3"
    using curveBasis_reference(2)[OF assms] assms(2) by (simp add: sl_def n_def)
  then have ne: "sl \<noteq> []" by auto
  have nth: "sl ! k = points ! (nat from + k)" if "k < n + 3" for k
    unfolding sl_def using points_in_range_nth[OF assms(3,4), of k] that L assms(2) n_def by simp
  have k: "map kind_of (basis_reference sl) = replicate (nat (L + 1)) Cubic"
    using len assms(2) by (simp add: basis_reference_eq kind_of_windows n_def)
  then have "length (map kind_of (basis_reference sl)) = nat (L + 1)" by simp
  then have c: "int (length (basis_reference sl)) = L + 1" using assms(2) by simp
  have "length (pad_ends sl) - 3 = n + 4" using len by (simp add: pad_ends_def)
  then have w: "windows4 (pad_ends sl) = map (window_at (pad_ends sl)) [0..<n + 4]"
    by (simp only: windows4_eq)
  have "hd (windows4 (pad_ends sl)) = window_at (pad_ends sl) 0"
    unfolding w by (simp add: hd_map upt_conv_Cons)
  also have "\<dots> = (sl ! 0, sl ! 0, sl ! 0, sl ! 1)"
    using pad_ends_nth(1,2)[OF ne] pad_ends_nth(3)[OF ne, of 0] pad_ends_nth(3)[OF ne, of 1] len
    by (simp add: window_at_def eval_nat_numeral)
  also have "\<dots> = (points ! nat from, points ! nat from, points ! nat from, points ! nat (from + 1))"
    using nth[of 0] nth[of 1] assms(3) by (simp add: nat_add_distrib)
  finally have h: "hd (windows4 (pad_ends sl))
        = (points ! nat from, points ! nat from, points ! nat from, points ! nat (from + 1))" .
  have "last (windows4 (pad_ends sl)) = window_at (pad_ends sl) (n + 3)"
    unfolding w by (simp add: last_map eval_nat_numeral)
  also have "\<dots> = (sl ! (n + 1), sl ! (n + 2), sl ! (n + 2), sl ! (n + 2))"
  proof -
    have "pad_ends sl ! (n + 3) = sl ! (n + 1)"
      using pad_ends_nth(3)[OF ne, of "n + 1"] len by (simp add: eval_nat_numeral)
    moreover have "pad_ends sl ! (n + 3 + 1) = sl ! (n + 2)"
      using pad_ends_nth(3)[OF ne, of "n + 2"] len by (simp add: eval_nat_numeral)
    moreover have "pad_ends sl ! (n + 3 + 2) = sl ! (n + 2)"
      using pad_ends_nth(4)[OF ne] len by (simp add: eval_nat_numeral)
    moreover have "pad_ends sl ! (n + 3 + 3) = sl ! (n + 2)"
      using pad_ends_nth(5)[OF ne] len by (simp add: eval_nat_numeral)
    ultimately show ?thesis unfolding window_at_def by (simp only:)
  qed
  also have "\<dots> = (points ! nat (to - 1), points ! nat to, points ! nat to, points ! nat to)"
  proof -
    have "nat from + (n + 1) = nat (to - 1)" "nat from + (n + 2) = nat to"
      using L assms(2,3) by (simp_all add: n_def) 
    with nth[of "n + 1"] nth[of "n + 2"] show ?thesis by simp
  qed
  finally have l: "last (windows4 (pad_ends sl))
        = (points ! nat (to - 1), points ! nat to, points ! nat to, points ! nat to)" .
  from curveBasis_reference(1)[OF assms] c k h l show ?thesis unfolding sl_def by blast
qed

theorem curveBasis_refines_reference_witness:
  "range_of example_points None = (5, 0, 4) \<and> (3::int) \<le> 5 \<and> (0::int) \<le> 0
   \<and> 4 < int (length example_points)
   \<and> curveBasis example_points None = Inr (basis_reference (points_in_range example_points 0 4))
   \<and> int (length (basis_reference (points_in_range example_points 0 4))) = 5 + 1"
proof -
  have h: "range_of example_points None = (5, 0, 4)" "(3::int) \<le> 5" "(0::int) \<le> 0"
    "4 < int (length example_points)"
    by (simp_all add: range_of_def example_points_def)
  from curveBasis_refines_reference[OF h] h show ?thesis by blast
qed

text \<open>
  Claim C1, as the code has it. On five points and the whole range
  \<open>curveBasisSegments\<close> returns four entries: the first two of the six curve
  segments merged into the first entry, two interior entries of one segment each,
  and the last two segments merged into the last entry.
\<close>

theorem curveBasisSegments_five_points:
  "curveBasisSegments [a, b, c, d, e] None
     = Inr (JArray [merged (convert_segment a a a b) (convert a a b c),
                    convert_segment a b c d,
                    convert_segment b c d e,
                    merged (convert_segment c d e e) (convert d e e e)])
   \<and> segment_count (curveBasisSegments [a, b, c, d, e] None) = Some 4"
proof -
  have g: "js_get [a, b, c, d, e] 0 = Some a" "js_get [a, b, c, d, e] 1 = Some b"
    "js_get [a, b, c, d, e] 2 = Some c" "js_get [a, b, c, d, e] 3 = Some d"
    "js_get [a, b, c, d, e] 4 = Some e"
    by (simp_all add: js_get_def)
  have l: "for_loop 3 5 (curveBasisSegments_body [a, b, c, d, e])
             ((Some a, Some a, Some b, Some c), [merged (convert_segment a a a b) (convert a a b c)])
           = Inr ((Some b, Some c, Some d, Some e),
                  [merged (convert_segment a a a b) (convert a a b c),
                   convert_segment a b c d, convert_segment b c d e])"
    by (simp add: for_loop.simps curveBasisSegments_body_def g pathBasis_segment_Some)
  have "curveBasisSegments [a, b, c, d, e] None
     = Inr (JArray [merged (convert_segment a a a b) (convert a a b c),
                    convert_segment a b c d,
                    convert_segment b c d e,
                    merged (convert_segment c d e e) (convert d e e e)])"
    using l
    by (simp add: curveBasisSegments_def range_of_def g pathBasis_Some pathBasis_segment_Some
        merged_def Let_def)
  then show ?thesis by simp
qed

text \<open>
  Claim C1 with its count of three entries does not hold: on the five sample
  points the returned array has four entries.
\<close>

theorem curveBasisSegments_five_points_not_three:
  "length example_points = 5
   \<and> segment_count (curveBasisSegments example_points None) = Some 4
   \<and> segment_count (curveBasisSegments example_points None) \<noteq> Some 3"
proof -
  have g: "js_get example_points 0 = Some \<lparr>p_left = 0, p_top = 0\<rparr>"
    "js_get example_points 1 = Some \<lparr>p_left = 1, p_top = 1\<rparr>"
    "js_get example_points 2 = Some \<lparr>p_left = 2, p_top = 1\<rparr>"
    "js_get example_points 3 = Some \<lparr>p_left = 3, p_top = 5\<rparr>"
    "js_get example_points 4 = Some \<lparr>p_left = 4, p_top = 4\<rparr>"
    by (simp_all add: js_get_def example_points_def)
  have len: "length example_points = 5" by (simp add: example_points_def)
  have "\<exists>x y z w. curveBasisSegments example_points None = Inr (JArray [x, y, z, w])"
    by (simp add: curveBasisSegments_def range_of_def len g pathBasis_Some pathBasis_segment_Some
        for_loop.simps curveBasisSegments_body_def Let_def)
  then have "segment_count (curveBasisSegments example_points None) = Some 4" by auto
  with len show ?thesis by simp
qed

section \<open>curveHermite\<close>

lemma curveHermite_body_Some:
  assumes "js_get points pidx = Some pv" "js_get tangents i = Some tv"
  shows "curveHermite_body points tangents i (p, t, pidx, path)
           = Inr (Some pv, Some tv, pidx + 1,
                  path @ [SmoothCubicTo (p_left pv - v_x tv) (p_top pv - v_y tv)
                            (p_left pv) (p_top pv)])"
  by (simp add: curveHermite_body_def assms)

lemma hermite_body_inv:
  assumes "off + length tangents \<le> length points" "i < int (length tangents)"
    and "hermite_inv points tangents off pre i s"
  shows "\<exists>s'. curveHermite_body points tangents i s = Inr s'
              \<and> hermite_inv points tangents off pre (i + 1) s'"
proof -
  from assms(3) obtain m where i: "i = int m + 2"
    and s: "s = (Some (points ! (off + (m + 1))), Some (tangents ! (m + 1)), int (off + (m + 2)),
               pre @ map (smooth_at points tangents off) [2..<m + 2])"
    unfolding hermite_inv_def by blast
  have lt: "m + 2 < length tangents" using assms(2) i by linarith
  then have lp: "off + (m + 2) < length points" using assms(1) by linarith
  have i': "i = int (m + 2)" using i by simp
  have gt: "js_get tangents i = Some (tangents ! (m + 2))"
    unfolding i' by (rule js_get_nat[OF lt])
  have gp: "js_get points (int (off + (m + 2))) = Some (points ! (off + (m + 2)))"
    by (rule js_get_nat[OF lp])
  have b: "curveHermite_body points tangents i s
             = Inr (Some (points ! (off + (m + 2))), Some (tangents ! (m + 2)), int (off + (m + 2)) + 1,
                    pre @ map (smooth_at points tangents off) [2..<m + 2]
                      @ [smooth_at points tangents off (m + 2)])"
    unfolding s curveHermite_body_Some[OF gp gt]
    by (simp only: smooth_at_def append_assoc)
  have e: "i + 1 = int (m + 1) + 2" "m + 1 + 1 = m + 2" "int (off + (m + 2)) + 1 = int (off + (m + 1 + 2))"
    "[2..<m + 1 + 2] = [2..<m + 2] @ [m + 2]"
    using i by simp_all
  have "hermite_inv points tangents off pre (i + 1)
          (Some (points ! (off + (m + 2))), Some (tangents ! (m + 2)), int (off + (m + 2)) + 1,
           pre @ map (smooth_at points tangents off) [2..<m + 2]
             @ [smooth_at points tangents off (m + 2)])"
    unfolding hermite_inv_def
    by (rule exI[of _ "m + 1"]) (simp only: e map_append list.map simp_thms)
  with b show ?thesis by blast
qed

lemma hermite_loop:
  assumes "off + length tangents \<le> length points" "2 \<le> length tangents"
  shows "for_loop 2 (int (length tangents)) (curveHermite_body points tangents)
           (Some (points ! (off + 1)), Some (tangents ! 1), int (off + 2), pre)
         = Inr (Some (points ! (off + (length tangents - 1))),
                Some (tangents ! (length tangents - 1)), int (off + length tangents),
                pre @ map (smooth_at points tangents off) [2..<length tangents])"
proof -
  let ?s0 = "(Some (points ! (off + 1)), Some (tangents ! 1), int (off + 2), pre)"
  have i0: "hermite_inv points tangents off pre 2 ?s0"
    unfolding hermite_inv_def by (rule exI[of _ 0]) simp
  have "\<exists>u. for_loop 2 (int (length tangents)) (curveHermite_body points tangents) ?s0 = Inr u
           \<and> hermite_inv points tangents off pre (max 2 (int (length tangents))) u"
    by (rule for_loop_total[where I = "hermite_inv points tangents off pre", OF i0])
       (rule hermite_body_inv[OF assms(1)]; assumption)
  moreover have "max 2 (int (length tangents)) = int (length tangents)" using assms(2) by simp
  ultimately obtain u where
    u: "for_loop 2 (int (length tangents)) (curveHermite_body points tangents) ?s0 = Inr u"
    and iu: "hermite_inv points tangents off pre (int (length tangents)) u"
    by auto
  from iu obtain m where m: "int (length tangents) = int m + 2"
    and uu: "u = (Some (points ! (off + (m + 1))), Some (tangents ! (m + 1)), int (off + (m + 2)),
               pre @ map (smooth_at points tangents off) [2..<m + 2])"
    unfolding hermite_inv_def by blast
  have e: "length tangents = m + 2" using m by linarith
  have e': "m + 2 - 1 = m + 1" by simp
  show ?thesis using u unfolding uu e e' .
qed

lemma hermite_loop_gen:
  assumes "off + length tangents \<le> length points" "2 \<le> length tangents"
    and "p = Some (points ! (off + 1))" "t = Some (tangents ! 1)" "pidx = int off + 2"
    and "T = int (length tangents)"
  shows "for_loop 2 T (curveHermite_body points tangents) (p, t, pidx, pre)
         = Inr (Some (points ! (off + (length tangents - 1))),
                Some (tangents ! (length tangents - 1)), int off + T,
                pre @ map (smooth_at points tangents off) [2..<length tangents])"
proof -
  have e: "int off + 2 = int (off + 2)"
    "int off + int (length tangents) = int (off + length tangents)"
    by simp_all
  show ?thesis unfolding assms(3-6) e by (rule hermite_loop[OF assms(1,2)])
qed

lemma js_get_plus:
  "n < length xs \<Longrightarrow> js_get xs (int n) = Some (xs ! n)"
  "n + 1 < length xs \<Longrightarrow> js_get xs (int n + 1) = Some (xs ! (n + 1))"
  "n + 2 < length xs \<Longrightarrow> js_get xs (int n + 2) = Some (xs ! (n + 2))"
  "0 < length xs \<Longrightarrow> js_get xs 0 = Some (xs ! 0)"
  "1 < length xs \<Longrightarrow> js_get xs 1 = Some (xs ! 1)"
  by (simp_all add: js_get_def nat_add_distrib)

lemma curveHermite_full:
  assumes R: "range_of points r = (int (length tangents), from, to)"
    and T: "2 \<le> length tangents" and lo: "0 \<le> from" and hi: "to < int (length points)"
  shows "curveHermite points tangents r
           = Inr (cubic_at points tangents (nat from)
                  # map (smooth_at points tangents (nat from)) [2..<length tangents])"
proof -
  define nf where "nf = nat from"
  have f: "from = int nf" using lo by (simp add: nf_def)
  have L: "int (length tangents) = to - from + 1"
    using R by (auto simp: range_of_def split: option.splits)
  have a1: "nf + length tangents \<le> length points" using L hi f by linarith
  have b: "nf < length points" "nf + 1 < length points" "0 < length tangents" "1 < length tangents"
    using a1 T by auto
  have ne: "tangents \<noteq> []" using T by auto
  note g = js_get_plus(1)[OF b(1)] js_get_plus(2)[OF b(2)] js_get_plus(4)[OF b(3)]
    js_get_plus(5)[OF b(4)]
  show ?thesis
    unfolding curveHermite_def R nf_def[symmetric] f
    using T
    by (simp add: g ne Let_def hermite_loop_gen[where off = nf, OF a1 T] cubic_at_def)
qed

lemma curveHermite_quad:
  assumes R: "range_of points r = (int (length tangents) + 2, from, to)"
    and T: "1 \<le> length tangents" and lo: "0 \<le> from" and hi: "to < int (length points)"
  shows "curveHermite points tangents r
           = Inr (quad_first points tangents (nat from)
                  # (if 1 < length tangents
                     then cubic_at points tangents (nat from + 1)
                          # map (smooth_at points tangents (nat from + 1)) [2..<length tangents]
                     else [])
                  @ [quad_last points tangents (nat from)])"
proof -
  define nf where "nf = nat from"
  have f: "from = int nf" using lo by (simp add: nf_def)
  have L: "int (length tangents) + 2 = to - from + 1"
    using R by (auto simp: range_of_def split: option.splits)
  have a1: "nf + 1 + length tangents \<le> length points" 
    and a0: "nf + length tangents + 1 < length points"
    using L hi f by linarith+
  have b: "nf < length points" "nf + 1 < length points" "nf + 2 < length points"
    "0 < length tangents"
    using a0 a1 T by auto
  have ne: "tangents \<noteq> []" using T by auto
  note g = js_get_plus(1)[OF b(1)] js_get_plus(2)[OF b(2)] js_get_plus(3)[OF b(3)]
    js_get_plus(4)[OF b(4)]
  have gl: "js_get points (1 + int nf + int (length tangents))
              = Some (points ! (nf + length tangents + 1))"
    using a0 by (simp add: js_get_def nat_add_distrib)
  show ?thesis
  proof (cases "1 < length tangents")
    case True
    then have T2: "2 \<le> length tangents" by simp
    have g1: "js_get tangents 1 = Some (tangents ! 1)"
      using True by (simp add: js_get_def)
    have e: "nf + 1 + (length tangents - 1) = nf + length tangents" using T by simp
    show ?thesis
      unfolding curveHermite_def R nf_def[symmetric] f
      using True e
      by (simp add: gl g g1 ne Let_def hermite_loop_gen[where off = "nf + 1", OF a1 T2] cubic_at_def
          quad_first_def quad_last_def)
  next
    case False
    with T have T1: "length tangents = 1" by simp
    show ?thesis
      unfolding curveHermite_def R nf_def[symmetric] f
      by (simp add: g ne Let_def quad_first_def quad_last_def T1)
  qed
qed

lemma kind_of_smooth:
  "map (kind_of \<circ> smooth_at points tangents off) ks = replicate (length ks) SmoothCubic"
  by (induction ks) (simp_all add: smooth_at_def)

text \<open>
  Claim C6. On a range of \<open>L \<ge> 3\<close> points inside the array: with \<open>L\<close> tangents the
  path of \<open>curveHermite\<close> is one \<open>CubicTo\<close> followed by \<open>L - 2\<close> \<open>SmoothCubicTo\<close>;
  with \<open>L - 2\<close> tangents it starts and ends with a \<open>QuadTo\<close>, and the commands
  between them are a \<open>CubicTo\<close> followed by \<open>SmoothCubicTo\<close>s (none when \<open>L = 3\<close>).
\<close>

theorem curveHermite_command_kinds:
  assumes "range_of points r = (L, from, to)" "3 \<le> L" "0 \<le> from" "to < int (length points)"
  shows "(int (length tangents) = L \<longrightarrow>
            (\<exists>path. curveHermite points tangents r = Inr path \<and>
                    map kind_of path = Cubic # replicate (nat (L - 2)) SmoothCubic))
       \<and> (int (length tangents) = L - 2 \<longrightarrow>
            (\<exists>path. curveHermite points tangents r = Inr path \<and>
                    map kind_of path
                      = Quad # (if L = 3 then [] else Cubic # replicate (nat (L - 4)) SmoothCubic)
                        @ [Quad]))"
proof (intro conjI impI)
  assume T: "int (length tangents) = L"
  then have T2: "2 \<le> length tangents" using assms(2) by linarith
  have n: "length [2..<length tangents] = nat (L - 2)" using T by simp
  have "map kind_of (cubic_at points tangents (nat from)
          # map (smooth_at points tangents (nat from)) [2..<length tangents])
        = Cubic # map (kind_of \<circ> smooth_at points tangents (nat from)) [2..<length tangents]"
    by (simp add: cubic_at_def)
  then have "map kind_of (cubic_at points tangents (nat from)
          # map (smooth_at points tangents (nat from)) [2..<length tangents])
        = Cubic # replicate (nat (L - 2)) SmoothCubic"
    unfolding kind_of_smooth n .
  note k = this
  show "\<exists>path. curveHermite points tangents r = Inr path \<and>
          map kind_of path = Cubic # replicate (nat (L - 2)) SmoothCubic"
    by (intro exI conjI, rule curveHermite_full[OF assms(1)[folded T] T2 assms(3,4)], rule k)
next
  assume T: "int (length tangents) = L - 2"
  then have T1: "1 \<le> length tangents" using assms(2) by linarith
  have R: "range_of points r = (int (length tangents) + 2, from, to)"
    using assms(1) T by simp
  have n: "length [2..<length tangents] = nat (L - 4)" using T by simp
  have c: "1 < length tangents \<longleftrightarrow> L \<noteq> 3" using T assms(2) by linarith
  have "map kind_of (quad_first points tangents (nat from)
          # (if 1 < length tangents
             then cubic_at points tangents (nat from + 1)
                  # map (smooth_at points tangents (nat from + 1)) [2..<length tangents]
             else [])
          @ [quad_last points tangents (nat from)])
        = Quad # (if L = 3 then []
                  else Cubic # map (kind_of \<circ> smooth_at points tangents (nat from + 1))
                                 [2..<length tangents]) @ [Quad]"
    unfolding c
    by (simp add: cubic_at_def quad_first_def quad_last_def Let_def)
  then have "map kind_of (quad_first points tangents (nat from)
          # (if 1 < length tangents
             then cubic_at points tangents (nat from + 1)
                  # map (smooth_at points tangents (nat from + 1)) [2..<length tangents]
             else [])
          @ [quad_last points tangents (nat from)])
        = Quad # (if L = 3 then [] else Cubic # replicate (nat (L - 4)) SmoothCubic) @ [Quad]"
    unfolding kind_of_smooth n .
  note k = this
  show "\<exists>path. curveHermite points tangents r = Inr path \<and>
          map kind_of path
            = Quad # (if L = 3 then [] else Cubic # replicate (nat (L - 4)) SmoothCubic) @ [Quad]"
    by (intro exI conjI, rule curveHermite_quad[OF R T1 assms(3,4)], rule k)
qed

theorem curveHermite_command_kinds_witness:
  "range_of example_points None = (5, 0, 4) \<and> (3::int) \<le> 5 \<and> (0::int) \<le> 0
   \<and> 4 < int (length example_points)
   \<and> int (length example_tangents) = 5
   \<and> int (length (take 3 example_tangents)) = 5 - 2
   \<and> (\<exists>path. curveHermite example_points example_tangents None = Inr path \<and>
              map kind_of path = [Cubic, SmoothCubic, SmoothCubic, SmoothCubic])
   \<and> (\<exists>path. curveHermite example_points (take 3 example_tangents) None = Inr path \<and>
              map kind_of path = [Quad, Cubic, SmoothCubic, Quad])"
proof -
  have h: "range_of example_points None = (5, 0, 4)" "(3::int) \<le> 5" "(0::int) \<le> 0"
    "4 < int (length example_points)"
    by (simp_all add: range_of_def example_points_def)
  have t: "int (length example_tangents) = 5" "int (length (take 3 example_tangents)) = 5 - 2"
    by (simp_all add: example_tangents_def)
  have r: "replicate (nat (5 - 2)) SmoothCubic = [SmoothCubic, SmoothCubic, SmoothCubic]"
    "replicate (nat (5 - 4)) SmoothCubic = [SmoothCubic]"
    by (simp_all add: eval_nat_numeral)
  from curveHermite_command_kinds[OF h, of example_tangents]
    curveHermite_command_kinds[OF h, of "take 3 example_tangents"] h t r
  show ?thesis by simp
qed

section \<open>monotoneTangents: flat secants and the clamping loop\<close>

lemma flatten_body_flat_zero:
  assumes "flat_zero d m j" "flatten_body d j m = Inr m'"
  shows "flat_zero d m' (j + 1)"
proof (cases "d j = Some 0")
  case True
  with assms(2) have m': "m' = m(j \<mapsto> 0, j + 1 \<mapsto> 0)" by (simp add: flatten_body_def)
  show ?thesis
    unfolding flat_zero_def
  proof (intro allI impI)
    fix k assume k: "0 \<le> k \<and> k < j + 1 \<and> d k = Some 0"
    show "m' k = Some 0 \<and> m' (k + 1) = Some 0"
    proof (cases "k = j")
      case True
      then show ?thesis by (simp add: m')
    next
      case False
      with k have "0 \<le> k \<and> k < j \<and> d k = Some 0" by simp
      with assms(1) have "m k = Some 0 \<and> m (k + 1) = Some 0" unfolding flat_zero_def by blast
      then show ?thesis by (simp add: m')
    qed
  qed
next
  case False
  with assms(2) have m': "m' = m" by (simp add: flatten_body_def)
  show ?thesis
    unfolding flat_zero_def m'
  proof (intro allI impI)
    fix k assume k: "0 \<le> k \<and> k < j + 1 \<and> d k = Some 0"
    with False have "0 \<le> k \<and> k < j \<and> d k = Some 0" by (cases "k = j") auto
    with assms(1) show "m k = Some 0 \<and> m (k + 1) = Some 0" unfolding flat_zero_def by blast
  qed
qed

lemma flatten_loop_flat_zero:
  assumes "for_loop 0 n (flatten_body d) m0 = Inr m"
  shows "flat_zero d m n"
proof -
  have "flat_zero d m0 0" by (auto simp: flat_zero_def)
  have "flat_zero d m (max 0 n)"
    by (rule for_loop_partial[where I = "\<lambda>j m. flat_zero d m j", OF assms \<open>flat_zero d m0 0\<close>])
       (rule flatten_body_flat_zero)
  then show ?thesis by (auto simp: flat_zero_def)
qed

text \<open>What an iteration of the clamping loop does, case by case.\<close>

lemma clamp_body_cases:
  obtains (skip) "abs_less (m k) (1 / 10 ^ 5) \<or> abs_less (m (k + 1)) (1 / 10 ^ 5)"
      "clamp_body d k m = Inr m"
  | (undefined) "\<not> abs_less (m k) (1 / 10 ^ 5)" "\<not> abs_less (m (k + 1)) (1 / 10 ^ 5)"
      "clamp_body d k m = Inl UndefinedOperand"
  | (zero) mk where "m k = Some mk" "d k = Some 0" "1 / 10 ^ 5 \<le> \<bar>mk\<bar>"
      "\<not> abs_less (m (k + 1)) (1 / 10 ^ 5)"
      "clamp_body d k m = Inl DivisionByZero"
  | (keep) mk mk1 dk where "m k = Some mk" "m (k + 1) = Some mk1" "d k = Some dk" "dk \<noteq> 0"
      "1 / 10 ^ 5 \<le> \<bar>mk\<bar>" "1 / 10 ^ 5 \<le> \<bar>mk1\<bar>"
      "(mk / dk) * (mk / dk) + (mk1 / dk) * (mk1 / dk) \<le> 9"
      "clamp_body d k m = Inr m"
  | (rescale) mk mk1 dk s where "m k = Some mk" "m (k + 1) = Some mk1" "d k = Some dk" "dk \<noteq> 0"
      "1 / 10 ^ 5 \<le> \<bar>mk\<bar>" "1 / 10 ^ 5 \<le> \<bar>mk1\<bar>"
      "s = (mk / dk) * (mk / dk) + (mk1 / dk) * (mk1 / dk)" "9 < s"
      "clamp_body d k m = Inr (m(k \<mapsto> 3 / sqrt s * (mk / dk) * dk,
                                  k + 1 \<mapsto> 3 / sqrt s * (mk1 / dk) * dk))"
proof (cases "abs_less (m k) (1 / 10 ^ 5) \<or> abs_less (m (k + 1)) (1 / 10 ^ 5)")
  case True
  then show ?thesis by (intro skip) (simp_all add: clamp_body_def)
next
  case False
  then have g: "\<not> abs_less (m k) (1 / 10 ^ 5)" "\<not> abs_less (m (k + 1)) (1 / 10 ^ 5)" by simp_all
  show ?thesis
  proof (cases "m k")
    case None
    with g show ?thesis by (intro undefined) (simp_all add: clamp_body_def num_def)
  next
    case mk: (Some mk)
    from g mk have b0: "1 / 10 ^ 5 \<le> \<bar>mk\<bar>" by (simp add: abs_less_def)
    show ?thesis
    proof (cases "d k")
      case None
      with g mk show ?thesis by (intro undefined) (simp_all add: clamp_body_def num_def)
    next
      case dk: (Some dk)
      show ?thesis
      proof (cases "dk = 0")
        case True
        with g mk dk b0 show ?thesis
          by (intro zero[of mk]) (simp_all add: clamp_body_def num_def js_divide_def)
      next
        case nz: False
        show ?thesis
        proof (cases "m (k + 1)")
          case None
          with g mk dk nz show ?thesis
            by (intro undefined) (simp_all add: clamp_body_def num_def js_divide_def)
        next
          case mk1: (Some mk1)
          from g mk1 have b1: "1 / 10 ^ 5 \<le> \<bar>mk1\<bar>" by (simp add: abs_less_def)
          show ?thesis
          proof (cases "9 < (mk / dk) * (mk / dk) + (mk1 / dk) * (mk1 / dk)")
            case True
            with g mk dk mk1 b0 b1 nz show ?thesis
              by (intro rescale[of mk mk1 dk "(mk / dk) * (mk / dk) + (mk1 / dk) * (mk1 / dk)"])
                 (simp_all add: clamp_body_def num_def js_divide_def Let_def)
          next
            case False
            with g mk dk mk1 b0 b1 nz show ?thesis
              by (intro keep[of mk mk1 dk]) (simp_all add: clamp_body_def num_def js_divide_def Let_def)
          qed
        qed
      qed
    qed
  qed
qed

lemma shrinks_refl: "shrinks a a"
  by (simp add: shrinks_def split: option.splits)

lemma shrinks_trans: "shrinks a b \<Longrightarrow> shrinks b c \<Longrightarrow> shrinks a c"
  by (auto simp: shrinks_def split: option.splits)

lemma rescale_shrinks:
  assumes "9 < s" "dk \<noteq> 0"
  shows "shrinks (Some mk) (Some (3 / sqrt s * (mk / dk) * dk))"
proof -
  have "3 < sqrt s" using assms(1) real_less_rsqrt[of 3 s] by simp
  then have p: "0 < sqrt s" by linarith
  have t: "0 \<le> 3 / sqrt s" "3 / sqrt s \<le> 1"
    using p \<open>3 < sqrt s\<close> assms(1) by (simp_all add: pos_divide_le_eq)
  have e: "3 / sqrt s * (mk / dk) * dk = 3 / sqrt s * mk" using assms(2) by simp
  have "\<bar>3 / sqrt s * mk\<bar> = 3 / sqrt s * \<bar>mk\<bar>" using t(1) by (simp add: abs_mult)
  also have "\<dots> \<le> 1 * \<bar>mk\<bar>" using t(2) by (intro mult_right_mono) simp_all
  finally show ?thesis unfolding shrinks_def e by simp
qed

lemma clamp_body_flat_zero:
  assumes fz: "flat_zero d m n" and j: "0 \<le> j" "j < n"
  shows "clamp_body d j m \<noteq> Inl DivisionByZero"
    and "clamp_body d j m = Inr m' \<Longrightarrow> flat_zero d m' n \<and> (\<forall>i. shrinks (m i) (m' i))"
proof -
  have both: "clamp_body d j m \<noteq> Inl DivisionByZero \<and>
     (clamp_body d j m = Inr m' \<longrightarrow> flat_zero d m' n \<and> (\<forall>i. shrinks (m i) (m' i)))"
  proof (cases rule: clamp_body_cases[of m j d])
    case skip
    with fz show ?thesis by (auto simp: shrinks_refl)
  next
    case undefined
    then show ?thesis by simp
  next
    case (zero mk)
    from fz j zero(2) have "m j = Some 0" unfolding flat_zero_def by blast
    with zero(1,3) show ?thesis by simp
  next
    case (keep mk mk1 dk)
    with fz show ?thesis by (auto simp: shrinks_refl)
  next
    case (rescale mk mk1 dk s)
    let ?m' = "m(j \<mapsto> 3 / sqrt s * (mk / dk) * dk, j + 1 \<mapsto> 3 / sqrt s * (mk1 / dk) * dk)"
    have nz: "mk \<noteq> 0" "mk1 \<noteq> 0" using rescale(5,6) by auto
    have "flat_zero d ?m' n"
      unfolding flat_zero_def
    proof (intro allI impI)
      fix k assume k: "0 \<le> k \<and> k < n \<and> d k = Some 0"
      with fz have z: "m k = Some 0" "m (k + 1) = Some 0" unfolding flat_zero_def by blast+
      from z nz rescale(1,2) have "k \<noteq> j" "k \<noteq> j + 1" "k + 1 \<noteq> j" "k + 1 \<noteq> j + 1"
        by auto
      with z show "?m' k = Some 0 \<and> ?m' (k + 1) = Some 0" by simp
    qed
    moreover have "shrinks (m i) (?m' i)" for i
    proof -
      consider "i = j + 1" | "i = j" | "i \<noteq> j" "i \<noteq> j + 1" by blast
      then show ?thesis
      proof cases
        case 1
        then show ?thesis
          using rescale_shrinks[OF rescale(8,4), of mk1] rescale(2) by simp
      next
        case 2
        then show ?thesis
          using rescale_shrinks[OF rescale(8,4), of mk] rescale(1) by simp
      next
        case 3
        then show ?thesis by (simp add: shrinks_refl)
      qed
    qed
    ultimately have "flat_zero d ?m' n \<and> (\<forall>i. shrinks (m i) (?m' i))" by blast
    moreover have "m' = ?m'" if "clamp_body d j m = Inr m'" using that rescale(9) by simp
    ultimately show ?thesis using rescale(9) by (metis sum.distinct(1))
  qed
  from both show "clamp_body d j m \<noteq> Inl DivisionByZero" by blast
  from both show "clamp_body d j m = Inr m' \<Longrightarrow> flat_zero d m' n \<and> (\<forall>i. shrinks (m i) (m' i))"
    by blast
qed

lemma clamp_loop_flat_zero:
  assumes fz: "flat_zero d m n"
  shows "for_loop 0 n (clamp_body d) m \<noteq> Inl DivisionByZero"
    and "for_loop 0 n (clamp_body d) m = Inr m' \<Longrightarrow> flat_zero d m' n \<and> (\<forall>i. shrinks (m i) (m' i))"
proof -
  define I where "I = (\<lambda>(j::int) u. flat_zero d u n \<and> (\<forall>i. shrinks (m i) (u i)))"
  have I0: "I 0 m" using fz by (simp add: I_def shrinks_refl)
  have step: "I (j + 1) u'" if "0 \<le> j" "j < n" "I j u" "clamp_body d j u = Inr u'" for j u u'
  proof -
    from that(3) have fu: "flat_zero d u n" and su: "\<forall>i. shrinks (m i) (u i)"
      by (simp_all add: I_def)
    from clamp_body_flat_zero(2)[OF fu that(1,2) that(4)]
    have "flat_zero d u' n" "\<forall>i. shrinks (u i) (u' i)" by simp_all
    with su show ?thesis unfolding I_def by (auto intro: shrinks_trans)
  qed
  show "for_loop 0 n (clamp_body d) m \<noteq> Inl DivisionByZero"
  proof
    assume a: "for_loop 0 n (clamp_body d) m = Inl DivisionByZero"
    have "\<exists>j u. 0 \<le> j \<and> j < n \<and> I j u \<and> clamp_body d j u = Inl DivisionByZero"
      by (rule for_loop_error[where I = I, OF a I0]) (rule step)
    then obtain j u where "0 \<le> j" "j < n" "I j u" "clamp_body d j u = Inl DivisionByZero"
      by blast
    with clamp_body_flat_zero(1)[of d u n j] show False by (simp add: I_def)
  qed
  show "flat_zero d m' n \<and> (\<forall>i. shrinks (m i) (m' i))"
    if a: "for_loop 0 n (clamp_body d) m = Inr m'"
  proof -
    have "I (max 0 n) m'" by (rule for_loop_partial[where I = I, OF a I0]) (rule step)
    then show ?thesis by (simp add: I_def)
  qed
qed

lemma no_div_bind:
  assumes "m \<noteq> Inl DivisionByZero" "\<And>v. m = Inr v \<Longrightarrow> f v \<noteq> Inl DivisionByZero"
  shows "bind_js m f \<noteq> Inl DivisionByZero"
  using assms by (cases m) auto

lemma no_div_deref: "deref v \<noteq> Inl DivisionByZero"
  by (cases v) simp_all

lemma no_div_num: "num v \<noteq> Inl DivisionByZero"
  by (cases v) (simp_all add: num_def)

lemma no_div_loop:
  assumes "\<And>j s. body j s \<noteq> Inl DivisionByZero"
  shows "for_loop i n body s \<noteq> Inl DivisionByZero"
proof
  assume a: "for_loop i n body s = Inl DivisionByZero"
  have "\<exists>j u. i \<le> j \<and> j < n \<and> True \<and> body j u = Inl DivisionByZero"
    by (rule for_loop_error[where I = "\<lambda>j u. True", OF a]) simp_all
  with assms show False by blast
qed

lemma no_div_secant_body: "secant_body points from k d \<noteq> Inl DivisionByZero"
  unfolding secant_body_def Let_def
  by (intro no_div_bind no_div_deref) simp

lemma no_div_average_body: "average_body points d k s \<noteq> Inl DivisionByZero"
  unfolding average_body_def
  by (cases s) (simp, intro no_div_bind no_div_deref no_div_num, simp)

lemma no_div_flatten_body: "flatten_body d k m \<noteq> Inl DivisionByZero"
  by (simp add: flatten_body_def)

lemma tangent_body_eq: "tangent_body m dx i ts = Inr (ts @ [tangent_at m dx i])"
proof (cases "m i")
  case None
  then show ?thesis
    by (cases "dx i")
      (simp_all add: tangent_body_def tangent_at_def nan_vec_def js_over_def js_plus_def
        js_times_def)
next
  case (Some mi)
  have "0 < 1 + mi * mi" by (simp add: add_pos_nonneg)
  then have "1 + mi * mi \<noteq> 0" by simp
  with Some show ?thesis
    by (cases "dx i")
      (simp_all add: tangent_body_def tangent_at_def nan_vec_def tangent_vec_def js_over_def
        js_plus_def js_times_def)
qed

lemma no_div_tangent_body: "tangent_body m dx i ts \<noteq> Inl DivisionByZero"
  by (simp add: tangent_body_eq)

lemma no_div_clamp_after_flatten:
  assumes "for_loop 0 n (flatten_body d) m0 = Inr m"
  shows "for_loop 0 n (clamp_body d) m \<noteq> Inl DivisionByZero"
  by (rule clamp_loop_flat_zero(1)[OF flatten_loop_flat_zero[OF assms]])

lemma monotoneTangents_no_div: "monotoneTangents points r \<noteq> Inl DivisionByZero"
proof -
  obtain L "from" to where R: "range_of points r = (L, from, to)"
    by (cases "range_of points r") auto
  show ?thesis
    unfolding monotoneTangents_def R prod.case Let_def case_prod_beta
    apply (intro no_div_clamp_after_flatten no_div_bind no_div_deref no_div_secant_body
        no_div_average_body no_div_flatten_body no_div_tangent_body no_div_loop)
    apply assumption
    done
qed

text \<open>
  Claim C10. \<open>monotoneTangents\<close> never divides by a secant that is \<open>0\<close>. The
  flattening loop leaves \<open>m[k] = 0\<close> and \<open>m[k+1] = 0\<close> wherever \<open>d[k] = 0\<close>; the
  clamping loop then never reaches the division with \<open>d[k] = 0\<close>, keeps that
  property, never increases the magnitude of a slope and never makes a zero slope
  non-zero; and at an index \<open>k\<close> with \<open>d[k] = 0\<close> the guard \<open>|m[k]| < 1e-5\<close> skips
  the iteration.
\<close>

theorem zero_secant_division_unreachable:
  "monotoneTangents points r \<noteq> Inl DivisionByZero
   \<and> (for_loop 0 n (flatten_body d) m0 = Inr m \<longrightarrow>
        flat_zero d m n
        \<and> for_loop 0 n (clamp_body d) m \<noteq> Inl DivisionByZero
        \<and> (\<forall>m'. for_loop 0 n (clamp_body d) m = Inr m' \<longrightarrow>
               flat_zero d m' n \<and> (\<forall>i. shrinks (m i) (m' i))))
   \<and> (flat_zero d m n \<and> 0 \<le> k \<and> k < n \<and> d k = Some 0 \<longrightarrow>
        abs_less (m k) (1 / 10 ^ 5) \<and> clamp_body d k m = Inr m)"
proof (intro conjI impI allI)
  show "monotoneTangents points r \<noteq> Inl DivisionByZero"
    by (rule monotoneTangents_no_div)
next
  assume a: "for_loop 0 n (flatten_body d) m0 = Inr m"
  show "flat_zero d m n" by (rule flatten_loop_flat_zero[OF a])
  show "for_loop 0 n (clamp_body d) m \<noteq> Inl DivisionByZero"
    by (rule no_div_clamp_after_flatten[OF a])
next
  fix m' assume a: "for_loop 0 n (flatten_body d) m0 = Inr m"
    and b: "for_loop 0 n (clamp_body d) m = Inr m'"
  from clamp_loop_flat_zero(2)[OF flatten_loop_flat_zero[OF a] b]
  show "flat_zero d m' n" "\<And>i. shrinks (m i) (m' i)" by simp_all
next
  assume a: "flat_zero d m n \<and> 0 \<le> k \<and> k < n \<and> d k = Some 0"
  then have z: "m k = Some 0" unfolding flat_zero_def by blast
  then show "abs_less (m k) (1 / 10 ^ 5)" by (simp add: abs_less_def)
  then show "clamp_body d k m = Inr m" by (simp add: clamp_body_def)
qed

theorem zero_secant_division_unreachable_witness:
  "for_loop 0 3 (flatten_body example_secants) example_slopes
     = Inr (example_slopes(1 \<mapsto> 0, 2 \<mapsto> 0))
   \<and> for_loop 0 3 (clamp_body example_secants) (example_slopes(1 \<mapsto> 0, 2 \<mapsto> 0))
     = Inr (example_slopes(1 \<mapsto> 0, 2 \<mapsto> 0))
   \<and> (0::int) \<le> 1 \<and> (1::int) < 3 \<and> example_secants 1 = Some 0
   \<and> flat_zero example_secants (example_slopes(1 \<mapsto> 0, 2 \<mapsto> 0)) 3
   \<and> abs_less ((example_slopes(1 \<mapsto> 0, 2 \<mapsto> 0)) 1) (1 / 10 ^ 5)
   \<and> clamp_body example_secants 1 (example_slopes(1 \<mapsto> 0, 2 \<mapsto> 0))
     = Inr (example_slopes(1 \<mapsto> 0, 2 \<mapsto> 0))
   \<and> (\<forall>i. shrinks ((example_slopes(1 \<mapsto> 0, 2 \<mapsto> 0)) i) ((example_slopes(1 \<mapsto> 0, 2 \<mapsto> 0)) i))
   \<and> monotoneTangents (take 4 example_points) None \<noteq> Inl DivisionByZero"
proof -
  let ?m = "example_slopes(1 \<mapsto> 0, 2 \<mapsto> 0)"
  have h1: "for_loop 0 3 (flatten_body example_secants) example_slopes = Inr ?m"
    by (simp add: for_loop.simps flatten_body_def example_secants_def)
  have h2: "for_loop 0 3 (clamp_body example_secants) ?m = Inr ?m"
    by (simp add: for_loop.simps clamp_body_def abs_less_def example_slopes_def)
  have h3: "(0::int) \<le> 1" "(1::int) < 3" "example_secants 1 = Some 0"
    by (simp_all add: example_secants_def)
  from zero_secant_division_unreachable[of "take 4 example_points" None 3 example_secants
      example_slopes ?m 1] h1 h2 h3
  show ?thesis by simp
qed

section \<open>monotoneTangents on rising data\<close>

lemma secant_body_in_range:
  assumes "0 \<le> from + k" "from + k + 1 < int (length points)"
  shows "secant_body points from k d = Inr (d(k \<mapsto> secant points (nat (from + k))))"
proof -
  have g: "js_get points (from + k + 1) = Some (points ! (nat (from + k) + 1))"
    "js_get points (from + k) = Some (points ! nat (from + k))"
    using assms by (simp_all add: js_get_def nat_add_distrib)
  show ?thesis
    unfolding secant_body_def Let_def g by (simp add: secant_def Let_def)
qed

lemma secants_of_step:
  "0 \<le> j \<Longrightarrow> (secants_of points from j)(j \<mapsto> secant points (nat (from + j)))
     = secants_of points from (j + 1)"
  by (rule ext) (auto simp: secants_of_def)

lemma secant_loop:
  assumes "0 \<le> from" "from + (L - 1) < int (length points)"
  shows "for_loop 0 (L - 1) (secant_body points from) Map.empty
           = Inr (secants_of points from (L - 1))"
proof -
  define I where "I = (\<lambda>(j::int) d. d = secants_of points from j)"
  have I0: "I 0 Map.empty" unfolding I_def by (rule ext) (simp add: secants_of_def)
  have step: "\<exists>t'. secant_body points from j t = Inr t' \<and> I (j + 1) t'"
    if "0 \<le> j" "j < L - 1" "I j t" for j t
  proof -
    have "secant_body points from j t = Inr (t(j \<mapsto> secant points (nat (from + j))))"
      using that assms by (intro secant_body_in_range) simp_all
    moreover have "I (j + 1) (t(j \<mapsto> secant points (nat (from + j))))"
      using that(3) secants_of_step[OF that(1)] by (simp add: I_def)
    ultimately show ?thesis by blast
  qed
  have "\<exists>t. for_loop 0 (L - 1) (secant_body points from) Map.empty = Inr t \<and> I (max 0 (L - 1)) t"
    by (rule for_loop_total[where I = I, OF I0]) (rule step)
  moreover have "secants_of points from (max 0 (L - 1)) = secants_of points from (L - 1)"
    by (rule ext) (auto simp: secants_of_def)
  ultimately show ?thesis by (auto simp: I_def)
qed

lemma tangent_loop:
  "for_loop 0 (int n) (tangent_body m dx) [] = Inr (map (\<lambda>i. tangent_at m dx (int i)) [0..<n])"
proof -
  define I where
    "I = (\<lambda>(j::int) ts. \<exists>k. j = int k \<and> ts = map (\<lambda>i. tangent_at m dx (int i)) [0..<k])"
  have I0: "I 0 []" unfolding I_def by (rule exI[of _ 0]) simp
  have step: "\<exists>t'. tangent_body m dx j t = Inr t' \<and> I (j + 1) t'"
    if "0 \<le> j" "j < int n" "I j t" for j t
  proof -
    from that(3) obtain k where k: "j = int k"
      and t: "t = map (\<lambda>i. tangent_at m dx (int i)) [0..<k]"
      unfolding I_def by blast
    have "I (j + 1) (t @ [tangent_at m dx j])"
      unfolding I_def by (intro exI[of _ "Suc k"]) (simp add: k t)
    then show ?thesis by (simp add: tangent_body_eq)
  qed
  have "\<exists>t. for_loop 0 (int n) (tangent_body m dx) [] = Inr t \<and> I (max 0 (int n)) t"
    by (rule for_loop_total[where I = I, OF I0]) (rule step)
  then show ?thesis by (auto simp: I_def)
qed

lemma secant_nonneg:
  assumes "rising points from to" "from \<le> i" "i < to" "0 \<le> i"
  shows "0 \<le> secant points (nat i)"
proof -
  have n: "nat (i + 1) = nat i + 1" using assms(4) by (simp add: nat_add_distrib)
  from assms(1-3) have "p_left (points ! nat i) < p_left (points ! (nat i + 1))"
    "p_top (points ! nat i) \<le> p_top (points ! (nat i + 1))"
    unfolding rising_def n[symmetric] by blast+
  then show ?thesis by (simp add: secant_def Let_def)
qed

lemma nonneg_upto_update:
  "nonneg_upto m k \<Longrightarrow> 0 \<le> v \<Longrightarrow> nonneg_upto (m(k \<mapsto> v)) (k + 1)"
  by (auto simp: nonneg_upto_def)

lemma pos_upto_update:
  "pos_upto m k \<Longrightarrow> 0 < v \<Longrightarrow> pos_upto (m(k \<mapsto> v)) (k + 1)"
  by (auto simp: pos_upto_def)

lemma nonneg_upto_keep:
  "nonneg_upto m n \<Longrightarrow> 0 \<le> v \<Longrightarrow> nonneg_upto (m(k \<mapsto> v)) n"
  by (auto simp: nonneg_upto_def)

lemma average_body_in_range:
  assumes "d (k - 1) = Some a" "d k = Some b" "0 \<le> j - 1" "j + 1 < int (length points)"
  shows "average_body points d k (m, dx, j)
           = Inr (m(k \<mapsto> (a + b) / 2),
                  dx(k \<mapsto> (p_left (points ! nat (j + 1)) - p_left (points ! nat (j - 1))) / 2),
                  j + 1)"
proof -
  have g: "js_get points (j + 1) = Some (points ! nat (j + 1))"
    "js_get points (j - 1) = Some (points ! nat (j - 1))"
    using assms(3,4) by (simp_all add: js_get_def)
  show ?thesis
    unfolding average_body_def by (simp add: assms(1,2) g num_def)
qed

lemma rising_two_steps:
  assumes "rising points from to" "from \<le> j - 1" "j + 1 \<le> to"
  shows "p_left (points ! nat (j - 1)) < p_left (points ! nat (j + 1))"
proof -
  have a: "from \<le> j - 1 \<and> j - 1 < to" and b: "from \<le> j \<and> j < to"
    using assms(2,3) by simp_all
  from assms(1)[unfolded rising_def, rule_format, OF a]
  have "p_left (points ! nat (j - 1)) < p_left (points ! nat j)" by simp
  moreover from assms(1)[unfolded rising_def, rule_format, OF b]
  have "p_left (points ! nat j) < p_left (points ! nat (j + 1))" by simp
  ultimately show ?thesis by simp
qed

lemma average_loop:
  assumes lo: "0 \<le> from" and hi: "from + (L - 1) < int (length points)"
    and ri: "rising points from (from + (L - 1))"
    and m0: "nonneg_upto m0 1" and dx0: "pos_upto dx0 1"
  shows "\<exists>m dx. for_loop 1 (L - 1) (average_body points (secants_of points from (L - 1)))
                  (m0, dx0, from + 1) = Inr (m, dx, from + max 1 (L - 1))
               \<and> nonneg_upto m (max 1 (L - 1)) \<and> pos_upto dx (max 1 (L - 1))"
proof -
  let ?d = "secants_of points from (L - 1)"
  define I where "I = (\<lambda>(k::int) s. \<exists>m dx. s = (m, dx, from + k) \<and> nonneg_upto m k \<and> pos_upto dx k)"
  have I0: "I 1 (m0, dx0, from + 1)" unfolding I_def using m0 dx0 by blast
  have step: "\<exists>t'. average_body points ?d k t = Inr t' \<and> I (k + 1) t'"
    if "1 \<le> k" "k < L - 1" "I k t" for k t
  proof -
    from that(3) obtain m dx where t: "t = (m, dx, from + k)"
      and nm: "nonneg_upto m k" and pd: "pos_upto dx k"
      unfolding I_def by blast
    let ?a = "secant points (nat (from + (k - 1)))" and ?b = "secant points (nat (from + k))"
    have d: "?d (k - 1) = Some ?a" "?d k = Some ?b"
      using that(1,2) by (simp_all add: secants_of_def)
    have a: "0 \<le> ?a" using that lo by (intro secant_nonneg[OF ri]) simp_all
    have b: "0 \<le> ?b" using that lo by (intro secant_nonneg[OF ri]) simp_all
    have r: "0 \<le> from + k - 1" "from + k + 1 < int (length points)"
      using that lo hi by simp_all
    have x: "p_left (points ! nat (from + k - 1)) < p_left (points ! nat (from + k + 1))"
      using that by (intro rising_two_steps[OF ri]) simp_all
    let ?m' = "m(k \<mapsto> (?a + ?b) / 2)"
    let ?dx' = "dx(k \<mapsto> (p_left (points ! nat (from + k + 1)) - p_left (points ! nat (from + k - 1))) / 2)"
    have "average_body points ?d k t = Inr (?m', ?dx', from + k + 1)"
      unfolding t by (rule average_body_in_range[OF d r])
    moreover have "I (k + 1) (?m', ?dx', from + k + 1)"
      unfolding I_def
      using nonneg_upto_update[OF nm, of "(?a + ?b) / 2"] a b
        pos_upto_update[OF pd, of "(p_left (points ! nat (from + k + 1)) - p_left (points ! nat (from + k - 1))) / 2"] x
      by (intro exI[of _ ?m'] exI[of _ ?dx']) (simp add: add.assoc)
    ultimately show ?thesis by blast
  qed
  have "\<exists>t. for_loop 1 (L - 1) (average_body points ?d) (m0, dx0, from + 1) = Inr t
           \<and> I (max 1 (L - 1)) t"
    by (rule for_loop_total[where I = I, OF I0]) (rule step)
  then show ?thesis unfolding I_def by blast
qed

lemma flatten_body_nonneg:
  assumes "nonneg_upto u N" "flatten_body d j u = Inr u'"
  shows "nonneg_upto u' N"
proof (cases "d j = Some 0")
  case True
  with assms(2) have "u' = u(j \<mapsto> 0, j + 1 \<mapsto> 0)" by (simp add: flatten_body_def)
  with assms(1) show ?thesis by (simp add: nonneg_upto_keep)
next
  case False
  with assms show ?thesis by (simp add: flatten_body_def)
qed

lemma flatten_loop_total:
  "\<exists>m'. for_loop 0 n (flatten_body d) m = Inr m' \<and> flat_zero d m' n
        \<and> (nonneg_upto m N \<longrightarrow> nonneg_upto m' N)"
proof -
  define I where "I = (\<lambda>(j::int) u. nonneg_upto m N \<longrightarrow> nonneg_upto u N)"
  have I0: "I 0 m" by (simp add: I_def)
  have step: "\<exists>t'. flatten_body d j t = Inr t' \<and> I (j + 1) t'" if "I j t" for j t
  proof -
    obtain t' where t': "flatten_body d j t = Inr t'"
      by (cases "d j = Some 0") (simp_all add: flatten_body_def)
    with that flatten_body_nonneg[OF _ t'] show ?thesis unfolding I_def by blast
  qed
  have "\<exists>t. for_loop 0 n (flatten_body d) m = Inr t \<and> I (max 0 n) t"
    by (rule for_loop_total[where I = I, OF I0]) (rule step)
  then obtain t where t: "for_loop 0 n (flatten_body d) m = Inr t" and "I (max 0 n) t" by blast
  with flatten_loop_flat_zero[OF t] show ?thesis unfolding I_def by blast
qed

lemma clamp_body_defined:
  assumes "m k = Some mk" "m (k + 1) = Some mk1" "d k = Some dk"
  shows "clamp_body d k m \<noteq> Inl UndefinedOperand"
  by (simp add: clamp_body_def num_def js_divide_def Let_def assms)

lemma clamp_body_total:
  assumes fz: "flat_zero d m n" and nm: "nonneg_upto m (n + 1)" and nd: "nonneg_upto d n"
    and j: "0 \<le> j" "j < n"
  shows "\<exists>m'. clamp_body d j m = Inr m' \<and> flat_zero d m' n \<and> nonneg_upto m' (n + 1)"
proof -
  have a: "0 \<le> j \<and> j < n + 1" and b: "0 \<le> j + 1 \<and> j + 1 < n + 1" using j by simp_all
  from nm[unfolded nonneg_upto_def, rule_format, OF a]
  obtain mk where mk: "m j = Some mk" "0 \<le> mk" by blast
  from nm[unfolded nonneg_upto_def, rule_format, OF b]
  obtain mk1 where mk1: "m (j + 1) = Some mk1" "0 \<le> mk1" by blast
  from nd j obtain dk where dk: "d j = Some dk" "0 \<le> dk" unfolding nonneg_upto_def by blast
  show ?thesis
  proof (cases rule: clamp_body_cases[of m j d])
    case skip
    with fz nm show ?thesis by blast
  next
    case undefined
    with clamp_body_defined[of m j mk mk1 d dk, OF mk(1) mk1(1) dk(1)] show ?thesis by simp
  next
    case (zero mk')
    with clamp_body_flat_zero(1)[OF fz j] show ?thesis by simp
  next
    case (keep mk' mk1' dk')
    with fz nm show ?thesis by blast
  next
    case (rescale mk' mk1' dk' s)
    with mk mk1 dk have e: "mk' = mk" "mk1' = mk1" "dk' = dk" by simp_all
    let ?m' = "m(j \<mapsto> 3 / sqrt s * (mk / dk) * dk, j + 1 \<mapsto> 3 / sqrt s * (mk1 / dk) * dk)"
    have r: "clamp_body d j m = Inr ?m'" using rescale(9) unfolding e .
    have "0 \<le> s" using rescale(8) by simp
    then have "0 \<le> 3 / sqrt s" by simp
    then have v: "0 \<le> 3 / sqrt s * (mk / dk) * dk" "0 \<le> 3 / sqrt s * (mk1 / dk) * dk"
      using mk(2) mk1(2) dk(2) by simp_all
    have "nonneg_upto ?m' (n + 1)"
      by (intro nonneg_upto_keep nm v)
    with clamp_body_flat_zero(2)[OF fz j r] r show ?thesis by blast
  qed
qed

lemma clamp_loop_total:
  assumes "flat_zero d m n" "nonneg_upto m (n + 1)" "nonneg_upto d n"
  shows "\<exists>m'. for_loop 0 n (clamp_body d) m = Inr m' \<and> flat_zero d m' n \<and> nonneg_upto m' (n + 1)"
proof -
  define I where "I = (\<lambda>(j::int) u. flat_zero d u n \<and> nonneg_upto u (n + 1))"
  have I0: "I 0 m" using assms by (simp add: I_def)
  have step: "\<exists>t'. clamp_body d j t = Inr t' \<and> I (j + 1) t'"
    if "0 \<le> j" "j < n" "I j t" for j t
    using clamp_body_total[OF _ _ assms(3) that(1,2), of t] that(3) unfolding I_def by blast
  have "\<exists>t. for_loop 0 n (clamp_body d) m = Inr t \<and> I (max 0 n) t"
    by (rule for_loop_total[where I = I, OF I0]) (rule step)
  then show ?thesis unfolding I_def by blast
qed

lemma monotoneTangents_rising:
  assumes R: "range_of points r = (L, from, to)" and L2: "2 \<le> L" and lo: "0 \<le> from"
    and hi: "to < int (length points)" and ri: "rising points from to"
  shows "\<exists>m dx. monotoneTangents points r
                  = Inr (map (\<lambda>i. tangent_at m dx (int i)) [0..<nat L])
               \<and> nonneg_upto m L \<and> pos_upto dx L
               \<and> flat_zero (secants_of points from (L - 1)) m (L - 1)"
proof -
  let ?d = "secants_of points from (L - 1)"
  let ?K = "max 1 (L - 1)"
  have to: "to = from + (L - 1)"
    using R by (auto simp: range_of_def split: option.splits)
  have K: "?K = L - 1" using L2 by simp
  note hi' = hi[unfolded to] and ri' = ri[unfolded to]
  have s1: "for_loop 0 (L - 1) (secant_body points from) (\<lambda>x. None) = Inr ?d"
    by (rule secant_loop[OF lo hi'])
  have nd: "nonneg_upto ?d (L - 1)"
    unfolding nonneg_upto_def secants_of_def
    using secant_nonneg[OF ri'] lo by auto
  have g1: "js_get points (from + 1) = Some (points ! nat (from + 1))"
    "js_get points from = Some (points ! nat from)"
    using lo hi' L2 by (simp_all add: js_get_def)
  let ?m0 = "(\<lambda>x. None)(0 := ?d 0)"
  let ?dx0 = "(\<lambda>x. None)(0 \<mapsto> p_left (points ! nat (from + 1)) - p_left (points ! nat from))"
  have m0: "nonneg_upto ?m0 1"
    using nd L2 unfolding nonneg_upto_def by auto
  have "from \<le> from \<and> from < from + (L - 1)" using L2 by simp
  from ri'[unfolded rising_def, rule_format, OF this]
  have "pos_upto ?dx0 1" unfolding pos_upto_def by auto
  from average_loop[OF lo hi' ri' m0 this]
  obtain m1 dx1 where a1: "for_loop 1 (L - 1) (average_body points ?d) (?m0, ?dx0, from + 1)
                             = Inr (m1, dx1, from + ?K)"
    and nm1: "nonneg_upto m1 ?K" and pd1: "pos_upto dx1 ?K"
    by blast
  have g2: "js_get points (from + ?K) = Some (points ! nat (from + ?K))"
    "js_get points (from + ?K - 1) = Some (points ! nat (from + ?K - 1))"
    unfolding K using lo hi' L2 by (simp_all add: js_get_def)
  let ?m2 = "m1(?K := ?d (?K - 1))"
  let ?dx2 = "dx1(?K \<mapsto> p_left (points ! nat (from + ?K)) - p_left (points ! nat (from + ?K - 1)))"
  have "0 \<le> L - 1 - 1 \<and> L - 1 - 1 < L - 1" using L2 by simp
  from nd[unfolded nonneg_upto_def, rule_format, OF this]
  obtain v where v: "?d (L - 1 - 1) = Some v" "0 \<le> v" by blast
  have nm2: "nonneg_upto ?m2 (L - 1 + 1)"
    unfolding K v(1) by (rule nonneg_upto_update[OF nm1[unfolded K] v(2)])
  have "from \<le> from + (L - 1) - 1 \<and> from + (L - 1) - 1 < from + (L - 1)" using L2 by simp
  from ri'[unfolded rising_def, rule_format, OF this]
  have "p_left (points ! nat (from + (L - 1) - 1)) < p_left (points ! nat (from + (L - 1) - 1 + 1))"
    by (rule conjunct1)
  moreover have "from + (L - 1) - 1 + 1 = from + (L - 1)" by simp
  ultimately
  have "p_left (points ! nat (from + (L - 1) - 1)) < p_left (points ! nat (from + (L - 1)))"
    by (simp only:)
  then have pd2: "pos_upto ?dx2 (L - 1 + 1)"
    unfolding K by (intro pos_upto_update[OF pd1[unfolded K]]) simp
  from flatten_loop_total[of "L - 1" ?d ?m2 "L - 1 + 1"] nm2
  obtain m3 where f3: "for_loop 0 (L - 1) (flatten_body ?d) ?m2 = Inr m3"
    and fz3: "flat_zero ?d m3 (L - 1)" and nm3: "nonneg_upto m3 (L - 1 + 1)"
    by blast
  from clamp_loop_total[OF fz3 nm3 nd]
  obtain m4 where c4: "for_loop 0 (L - 1) (clamp_body ?d) m3 = Inr m4"
    and fz4: "flat_zero ?d m4 (L - 1)" and nm4: "nonneg_upto m4 (L - 1 + 1)"
    by blast
  have e: "monotoneTangents points r = for_loop 0 L (tangent_body m4 ?dx2) []"
    unfolding monotoneTangents_def R prod.case Let_def
    by (simp only: s1 bind_js_Inr g1 deref_Some a1 prod.case g2 f3 c4)
  have nm4': "nonneg_upto m4 L" and pd2': "pos_upto ?dx2 L" using nm4 pd2 by simp_all
  have "int (nat L) = L" using L2 by simp
  with tangent_loop[of "nat L" m4 ?dx2]
  have "for_loop 0 L (tangent_body m4 ?dx2) []
          = Inr (map (\<lambda>i. tangent_at m4 ?dx2 (int i)) [0..<nat L])"
    by simp
  with e nm4' pd2' fz4 show ?thesis by (intro exI[of _ m4] exI[of _ ?dx2]) simp
qed

lemma tangent_vec_signs:
  assumes "0 \<le> mi" "0 < dxi"
  shows "js_ge (n_y (tangent_vec mi dxi)) 0" "\<exists>x. n_x (tangent_vec mi dxi) = Some x \<and> x \<noteq> 0"
proof -
  have p: "0 < 1 + mi * mi" using assms(1) by (simp add: add_pos_nonneg)
  show "js_ge (n_y (tangent_vec mi dxi)) 0"
    using assms p by (simp add: tangent_vec_def js_ge_def)
  show "\<exists>x. n_x (tangent_vec mi dxi) = Some x \<and> x \<noteq> 0"
    using assms p by (simp add: tangent_vec_def)
qed

lemma tangent_vec_flat: "n_y (tangent_vec 0 dxi) = Some 0"
  by (simp add: tangent_vec_def)

text \<open>
  Claim C3, amended. On a range of at least two points inside the array whose
  x-coordinates increase strictly and whose y-coordinates do not decrease,
  \<open>monotoneTangents\<close> returns one tangent per point, every tangent has a
  y-component \<open>\<ge> 0\<close>, and where the secant between two adjacent points of the
  range is \<open>0\<close> the tangents at both points have the y-component \<open>0\<close> and an
  x-component that is a number other than \<open>0\<close>.
\<close>

theorem monotoneTangents_rising_tangents:
  assumes "range_of points r = (L, from, to)" "2 \<le> L" "0 \<le> from" "to < int (length points)"
    and "rising points from to"
  shows "\<exists>ts. monotoneTangents points r = Inr ts \<and> int (length ts) = L
          \<and> (\<forall>i < length ts. js_ge (n_y (ts ! i)) 0)
          \<and> (\<forall>k. from \<le> k \<and> k < to \<and> secant points (nat k) = 0 \<longrightarrow>
                 n_y (ts ! nat (k - from)) = Some 0 \<and> n_y (ts ! nat (k + 1 - from)) = Some 0
               \<and> (\<exists>x. n_x (ts ! nat (k - from)) = Some x \<and> x \<noteq> 0)
               \<and> (\<exists>x. n_x (ts ! nat (k + 1 - from)) = Some x \<and> x \<noteq> 0))"
proof -
  have to: "to = from + (L - 1)"
    using assms(1) by (auto simp: range_of_def split: option.splits)
  let ?d = "secants_of points from (L - 1)"
  from monotoneTangents_rising[OF assms]
  obtain m dx where res: "monotoneTangents points r
                  = Inr (map (\<lambda>i. tangent_at m dx (int i)) [0..<nat L])"
    and nm: "nonneg_upto m L" and pd: "pos_upto dx L" and fz: "flat_zero ?d m (L - 1)"
    by blast
  let ?ts = "map (\<lambda>i. tangent_at m dx (int i)) [0..<nat L]"
  have len: "int (length ?ts) = L" using assms(2) by simp
  have entry: "\<exists>mi dxi. m i = Some mi \<and> 0 \<le> mi \<and> dx i = Some dxi \<and> 0 < dxi
                 \<and> ?ts ! nat i = tangent_vec mi dxi" if "0 \<le> i" "i < L" for i
  proof -
    have i: "0 \<le> i \<and> i < L" using that by simp
    from nm[unfolded nonneg_upto_def, rule_format, OF i]
    obtain mi where mi: "m i = Some mi" "0 \<le> mi" by blast
    from pd[unfolded pos_upto_def, rule_format, OF i]
    obtain dxi where dxi: "dx i = Some dxi" "0 < dxi" by blast
    have "nat i < nat L" using that by simp
    then have "?ts ! nat i = tangent_at m dx (int (nat i))"
      by simp
    with mi dxi that(1) show ?thesis by (simp add: tangent_at_def)
  qed
  have nonneg: "js_ge (n_y (?ts ! i)) 0" if "i < length ?ts" for i
  proof -
    have "0 \<le> int i" "int i < L" using that assms(2) by simp_all
    from entry[OF this] tangent_vec_signs(1) show ?thesis by auto
  qed
  have flat: "n_y (?ts ! nat (k - from)) = Some 0 \<and> n_y (?ts ! nat (k + 1 - from)) = Some 0
                \<and> (\<exists>x. n_x (?ts ! nat (k - from)) = Some x \<and> x \<noteq> 0)
                \<and> (\<exists>x. n_x (?ts ! nat (k + 1 - from)) = Some x \<and> x \<noteq> 0)"
    if k: "from \<le> k \<and> k < to \<and> secant points (nat k) = 0" for k
  proof -
    define i where "i = k - from"
    have i: "0 \<le> i" "i < L - 1" using k to by (simp_all add: i_def)
    have "?d i = Some 0" using i k by (simp add: secants_of_def i_def)
    with fz i have z: "m i = Some 0" "m (i + 1) = Some 0" unfolding flat_zero_def by blast+
    have "0 \<le> i" "i < L" using i by simp_all
    from entry[OF this] z(1) obtain dxi where a: "0 < dxi" "?ts ! nat i = tangent_vec 0 dxi"
      by auto
    have "0 \<le> i + 1" "i + 1 < L" using i by simp_all
    from entry[OF this] z(2) obtain dxj where b: "0 < dxj" "?ts ! nat (i + 1) = tangent_vec 0 dxj"
      by auto
    have e: "k + 1 - from = i + 1" by (simp add: i_def)
    show ?thesis
      unfolding e i_def[symmetric] a(2) b(2)
      using tangent_vec_signs(2)[of 0 dxi] tangent_vec_signs(2)[of 0 dxj] a(1) b(1)
      by (simp add: tangent_vec_flat)
  qed
  show ?thesis
  proof (rule exI[of _ ?ts], intro conjI allI impI)
    show "monotoneTangents points r = Inr ?ts" by (rule res)
    show "int (length ?ts) = L" by (rule len)
  next
    fix i assume "i < length ?ts"
    then show "js_ge (n_y (?ts ! i)) 0" by (rule nonneg)
  next
    fix k assume k: "from \<le> k \<and> k < to \<and> secant points (nat k) = 0"
    from flat[OF k]
    show "n_y (?ts ! nat (k - from)) = Some 0" "n_y (?ts ! nat (k + 1 - from)) = Some 0"
      "\<exists>x. n_x (?ts ! nat (k - from)) = Some x \<and> x \<noteq> 0"
      "\<exists>x. n_x (?ts ! nat (k + 1 - from)) = Some x \<and> x \<noteq> 0"
      by blast+
  qed
qed

lemma flat_pair_points_rising: "rising flat_pair_points 0 3"
  unfolding rising_def
proof (intro allI impI)
  fix k :: int assume "0 \<le> k \<and> k < 3"
  then have "k = 0 \<or> k = 1 \<or> k = 2" by linarith
  then show "p_left (flat_pair_points ! nat k) < p_left (flat_pair_points ! nat (k + 1)) \<and>
             p_top (flat_pair_points ! nat k) \<le> p_top (flat_pair_points ! nat (k + 1))"
    by (auto simp: flat_pair_points_def)
qed

lemma flat_pair_points_tangents:
  "monotoneTangents flat_pair_points None
     = Inr [\<lparr>n_x = Some (1 / 6), n_y = Some (1 / 6)\<rparr>, \<lparr>n_x = Some (1 / 3), n_y = Some 0\<rparr>,
            \<lparr>n_x = Some (1 / 3), n_y = Some 0\<rparr>, \<lparr>n_x = Some (1 / 51), n_y = Some (4 / 51)\<rparr>]"
  by (simp add: monotoneTangents_def range_of_def flat_pair_points_def js_get_def for_loop.simps
      secant_body_def average_body_def flatten_body_def clamp_body_def tangent_body_def num_def
      abs_less_def Let_def js_over_def js_plus_def js_times_def)

theorem monotoneTangents_rising_tangents_witness:
  "range_of flat_pair_points None = (4, 0, 3) \<and> (2::int) \<le> 4 \<and> (0::int) \<le> 0
   \<and> 3 < int (length flat_pair_points) \<and> rising flat_pair_points 0 3
   \<and> (0::int) \<le> 1 \<and> (1::int) < 3 \<and> secant flat_pair_points (nat 1) = 0
   \<and> (\<exists>ts. monotoneTangents flat_pair_points None = Inr ts \<and> int (length ts) = 4
         \<and> js_ge (n_y (ts ! 0)) 0 \<and> js_ge (n_y (ts ! 1)) 0 \<and> js_ge (n_y (ts ! 2)) 0
         \<and> js_ge (n_y (ts ! 3)) 0
         \<and> n_y (ts ! 1) = Some 0 \<and> n_y (ts ! 2) = Some 0
         \<and> (\<exists>x. n_x (ts ! 1) = Some x \<and> x \<noteq> 0) \<and> (\<exists>x. n_x (ts ! 2) = Some x \<and> x \<noteq> 0))"
proof -
  have h: "range_of flat_pair_points None = (4, 0, 3)" "(2::int) \<le> 4" "(0::int) \<le> 0"
    "3 < int (length flat_pair_points)"
    by (simp_all add: range_of_def flat_pair_points_def)
  have s: "(0::int) \<le> 1 \<and> (1::int) < 3 \<and> secant flat_pair_points (nat 1) = 0"
    by (simp add: secant_def flat_pair_points_def)
  from monotoneTangents_rising_tangents[OF h flat_pair_points_rising]
  obtain ts where ts: "monotoneTangents flat_pair_points None = Inr ts" "int (length ts) = 4"
    and a: "\<And>i. i < length ts \<Longrightarrow> js_ge (n_y (ts ! i)) 0"
    and f: "\<And>k. 0 \<le> k \<and> k < 3 \<and> secant flat_pair_points (nat k) = 0 \<Longrightarrow>
                 n_y (ts ! nat (k - 0)) = Some 0 \<and> n_y (ts ! nat (k + 1 - 0)) = Some 0
               \<and> (\<exists>x. n_x (ts ! nat (k - 0)) = Some x \<and> x \<noteq> 0)
               \<and> (\<exists>x. n_x (ts ! nat (k + 1 - 0)) = Some x \<and> x \<noteq> 0)"
    by blast
  have l: "length ts = 4" using ts(2) by simp
  have a4: "js_ge (n_y (ts ! 0)) 0" "js_ge (n_y (ts ! 1)) 0" "js_ge (n_y (ts ! 2)) 0"
    "js_ge (n_y (ts ! 3)) 0"
    using a[of 0] a[of 1] a[of 2] a[of 3] l by simp_all
  from f[OF s]
  have f4: "n_y (ts ! 1) = Some 0" "n_y (ts ! 2) = Some 0"
    "\<exists>x. n_x (ts ! 1) = Some x \<and> x \<noteq> 0" "\<exists>x. n_x (ts ! 2) = Some x \<and> x \<noteq> 0"
    by (simp_all add: eval_nat_numeral)
  show ?thesis
    using h flat_pair_points_rising s ts a4 f4 by (intro conjI exI[of _ ts]) simp_all
qed

text \<open>
  The claim as stated, for a range of any length, fails on a range of one point.
  On the range that holds only the first of two rising points \<^verbatim>\<open>m[0]\<close> is
  \<^verbatim>\<open>d[0]\<close>, which the first loop never assigns, so the one tangent that
  \<open>monotoneTangents\<close> returns has the components NaN, and \<^verbatim>\<open>NaN >= 0\<close> is false.
\<close>

theorem monotoneTangents_single_point_nan:
  "p_left (two_points ! 0) < p_left (two_points ! 1)
   \<and> p_top (two_points ! 0) \<le> p_top (two_points ! 1)
   \<and> range_of two_points (Some (0, 0)) = (1, 0, 0)
   \<and> (0::int) \<le> 0 \<and> 0 < int (length two_points) \<and> rising two_points 0 0
   \<and> monotoneTangents two_points (Some (0, 0)) = Inr [\<lparr>n_x = None, n_y = None\<rparr>]
   \<and> \<not> js_ge (n_y \<lparr>n_x = None, n_y = None\<rparr>) 0"
  by (simp add: monotoneTangents_def range_of_def two_points_def js_get_def for_loop.simps
      tangent_body_def js_over_def js_plus_def js_times_def js_ge_def rising_def Let_def)

section \<open>The outcome UndefinedOperand is never reached in the monotone functions\<close>

text \<open>
  Outside the last loop of \<open>monotoneTangents\<close> the model has the outcome
  \<open>UndefinedOperand\<close> where the program would continue with NaN. That outcome is
  never reached: the loops that read \<^verbatim>\<open>d\<close> and \<^verbatim>\<open>m\<close> run only when the range has
  at least two points, and then every entry they read has been assigned. For
  such a range the tangents have no NaN component, so the monotone drivers,
  which call \<open>monotoneTangents\<close> on more than two points, pass real tangents on.
\<close>

lemma def_upto_extend: "def_upto m k \<Longrightarrow> def_upto (m(k \<mapsto> v)) (k + 1)"
  by (auto simp: def_upto_def)

lemma no_undef_bind:
  assumes "m \<noteq> Inl UndefinedOperand" "\<And>v. m = Inr v \<Longrightarrow> f v \<noteq> Inl UndefinedOperand"
  shows "bind_js m f \<noteq> Inl UndefinedOperand"
  using assms by (cases m) auto

lemma no_undef_deref: "deref v \<noteq> Inl UndefinedOperand"
  by (cases v) simp_all

lemma no_undef_loop:
  assumes "\<And>j s. body j s \<noteq> Inl UndefinedOperand"
  shows "for_loop i n body s \<noteq> Inl UndefinedOperand"
proof
  assume a: "for_loop i n body s = Inl UndefinedOperand"
  have "\<exists>j u. i \<le> j \<and> j < n \<and> True \<and> body j u = Inl UndefinedOperand"
    by (rule for_loop_error[where I = "\<lambda>j u. True", OF a]) simp_all
  with assms show False by blast
qed

lemma no_undef_secant_body: "secant_body points from k d \<noteq> Inl UndefinedOperand"
  unfolding secant_body_def Let_def
  by (intro no_undef_bind no_undef_deref) simp

lemma no_undef_secant_loop: "for_loop i n (secant_body points from) d \<noteq> Inl UndefinedOperand"
  by (rule no_undef_loop) (rule no_undef_secant_body)

lemma no_undef_flatten_loop: "for_loop i n (flatten_body d) m \<noteq> Inl UndefinedOperand"
  by (rule no_undef_loop) (simp add: flatten_body_def)

lemma no_undef_tangent_loop: "for_loop i n (tangent_body m dx) ts \<noteq> Inl UndefinedOperand"
  by (rule no_undef_loop) (simp add: tangent_body_eq)

lemma secant_body_Inr:
  assumes "secant_body points from k d = Inr d'"
  shows "\<exists>v. d' = d(k \<mapsto> v)"
  using assms unfolding secant_body_def Let_def
  by (auto simp: bind_js_def deref_def split: option.splits)

lemma secant_loop_defined:
  assumes "for_loop 0 n (secant_body points from) d0 = Inr d"
  shows "def_upto d n"
proof -
  define I where "I = (\<lambda>(j::int) d. def_upto d j)"
  have I0: "I 0 d0" by (auto simp: I_def def_upto_def)
  have step: "I (j + 1) u'" if "0 \<le> j" "j < n" "I j u" "secant_body points from j u = Inr u'" for j u u'
    using secant_body_Inr[OF that(4)] that(3) by (auto simp: I_def intro: def_upto_extend)
  have "I (max 0 n) d" by (rule for_loop_partial[where I = I, OF assms I0]) (rule step)
  then show ?thesis by (auto simp: I_def def_upto_def)
qed

lemma average_body_Inr:
  assumes "average_body points d k s = Inr s'"
  shows "\<exists>a b. fst s' = (fst s)(k \<mapsto> a) \<and> fst (snd s') = (fst (snd s))(k \<mapsto> b)"
  using assms unfolding average_body_def
  by (cases s) (auto simp: bind_js_def deref_def num_def split: option.splits sum.splits)

lemma average_body_no_undef:
  assumes "d (k - 1) \<noteq> None" "d k \<noteq> None"
  shows "average_body points d k s \<noteq> Inl UndefinedOperand"
  using assms unfolding average_body_def
  by (cases s) (auto simp: bind_js_def deref_def num_def split: option.splits sum.splits)

lemma average_loop_no_undef:
  assumes "def_upto d n"
  shows "for_loop 1 n (average_body points d) s \<noteq> Inl UndefinedOperand"
proof
  assume a: "for_loop 1 n (average_body points d) s = Inl UndefinedOperand"
  have "\<exists>j u. 1 \<le> j \<and> j < n \<and> True \<and> average_body points d j u = Inl UndefinedOperand"
    by (rule for_loop_error[where I = "\<lambda>j u. True", OF a]) simp_all
  then obtain j u where j: "1 \<le> j" "j < n" and e: "average_body points d j u = Inl UndefinedOperand"
    by blast
  from assms j have "d (j - 1) \<noteq> None" "d j \<noteq> None" by (simp_all add: def_upto_def)
  from average_body_no_undef[OF this] e show False by blast
qed

lemma average_loop_defined:
  assumes "for_loop 1 n (average_body points d) s = Inr s'"
    and "def_upto (fst s) 1" "def_upto (fst (snd s)) 1"
  shows "def_upto (fst s') (max 1 n) \<and> def_upto (fst (snd s')) (max 1 n)"
proof -
  define I where "I = (\<lambda>(j::int) (s :: js_array \<times> js_array \<times> int).
                         def_upto (fst s) j \<and> def_upto (fst (snd s)) j)"
  have I0: "I 1 s" using assms(2,3) by (simp add: I_def)
  have step: "I (j + 1) u'"
    if "1 \<le> j" "j < n" "I j u" "average_body points d j u = Inr u'" for j u u'
    using average_body_Inr[OF that(4)] that(3) by (auto simp: I_def intro: def_upto_extend)
  have "I (max 1 n) s'" by (rule for_loop_partial[where I = I, OF assms(1) I0]) (rule step)
  then show ?thesis by (simp add: I_def)
qed

lemma flatten_loop_defined:
  assumes "for_loop 0 n (flatten_body d) m = Inr m'" "def_upto m N"
  shows "def_upto m' N"
proof -
  define I where "I = (\<lambda>(j::int) m. def_upto m N)"
  have I0: "I 0 m" using assms(2) by (simp add: I_def)
  have step: "I (j + 1) u'" if "I j u" "flatten_body d j u = Inr u'" for j u u'
    using that by (auto simp: I_def flatten_body_def def_upto_def split: if_splits)
  have "I (max 0 n) m'" by (rule for_loop_partial[where I = I, OF assms(1) I0]) (rule step)
  then show ?thesis by (simp add: I_def)
qed

lemma clamp_body_def_upto:
  assumes "clamp_body d k m = Inr m'" "def_upto m N"
  shows "def_upto m' N"
proof (cases rule: clamp_body_cases[of m k d])
  case skip
  with assms show ?thesis by simp
next
  case undefined
  with assms show ?thesis by simp
next
  case (zero mk)
  with assms show ?thesis by simp
next
  case (keep mk mk1 dk)
  with assms show ?thesis by simp
next
  case (rescale mk mk1 dk s)
  with assms show ?thesis by (auto simp: def_upto_def)
qed

lemma clamp_loop_defined:
  assumes "for_loop 0 n (clamp_body d) m = Inr m'" "def_upto m N"
  shows "def_upto m' N"
proof -
  define I where "I = (\<lambda>(j::int) m. def_upto m N)"
  have I0: "I 0 m" using assms(2) by (simp add: I_def)
  have step: "I (j + 1) u'" if "I j u" "clamp_body d j u = Inr u'" for j u u'
    using clamp_body_def_upto[OF that(2)] that(1) by (simp add: I_def)
  have "I (max 0 n) m'" by (rule for_loop_partial[where I = I, OF assms(1) I0]) (rule step)
  then show ?thesis by (simp add: I_def)
qed

lemma clamp_loop_no_undef:
  assumes "def_upto m (n + 1)" "def_upto d n"
  shows "for_loop 0 n (clamp_body d) m \<noteq> Inl UndefinedOperand"
proof
  assume a: "for_loop 0 n (clamp_body d) m = Inl UndefinedOperand"
  define I where "I = (\<lambda>(j::int) m. def_upto m (n + 1))"
  have I0: "I 0 m" using assms(1) by (simp add: I_def)
  have step: "I (j + 1) u'" if "I j u" "clamp_body d j u = Inr u'" for j u u'
    using clamp_body_def_upto[OF that(2)] that(1) by (simp add: I_def)
  have "\<exists>j u. 0 \<le> j \<and> j < n \<and> I j u \<and> clamp_body d j u = Inl UndefinedOperand"
    by (rule for_loop_error[where I = I, OF a I0]) (rule step)
  then obtain j u where j: "0 \<le> j" "j < n" and u: "def_upto u (n + 1)"
    and e: "clamp_body d j u = Inl UndefinedOperand"
    by (auto simp: I_def)
  from j u assms(2) obtain mk mk1 dk where "u j = Some mk" "u (j + 1) = Some mk1" "d j = Some dk"
    unfolding def_upto_def by (metis add_nonneg_nonneg add_strict_right_mono not_None_eq
        less_add_one order_less_trans zero_le_one)
  from clamp_body_defined[of u j mk mk1 d dk, OF this] e show False by blast
qed


lemma slopes_defined:
  assumes L2: "2 \<le> L"
    and s1: "for_loop 0 (L - 1) (secant_body points from) d0 = Inr d"
    and a1: "for_loop 1 (L - 1) (average_body points d) (m0(0 := d 0), dx0(0 \<mapsto> x0), j0) = Inr s"
  shows "def_upto d (L - 1)"
    "def_upto ((fst s)(max 1 (L - 1) := d (max 1 (L - 1) - 1))) L"
    "def_upto ((fst (snd s))(max 1 (L - 1) \<mapsto> x1)) L"
proof -
  show d: "def_upto d (L - 1)" by (rule secant_loop_defined[OF s1])
  have K: "max 1 (L - 1) = L - 1" using L2 by simp
  from d L2 have d0: "d 0 \<noteq> None" and d1: "d (L - 1 - 1) \<noteq> None" by (simp_all add: def_upto_def)
  have "def_upto (m0(0 := d 0)) 1" "def_upto (dx0(0 \<mapsto> x0)) 1"
    using d0 by (auto simp: def_upto_def)
  with average_loop_defined[OF a1]
  have m: "def_upto (fst s) (L - 1)" and dx: "def_upto (fst (snd s)) (L - 1)"
    by (simp_all add: K)
  show "def_upto ((fst s)(max 1 (L - 1) := d (max 1 (L - 1) - 1))) L"
    unfolding K using m d1 by (auto simp: def_upto_def)
  show "def_upto ((fst (snd s))(max 1 (L - 1) \<mapsto> x1)) L"
    unfolding K using dx by (auto simp: def_upto_def)
qed

lemma no_undef_average_after_secants:
  assumes "for_loop 0 n (secant_body points from) d0 = Inr d"
  shows "for_loop 1 n (average_body points d) s \<noteq> Inl UndefinedOperand"
  by (rule average_loop_no_undef[OF secant_loop_defined[OF assms]])

lemma no_undef_clamp_after_flatten:
  assumes s1: "for_loop 0 (L - 1) (secant_body points from) d0 = Inr d"
    and a1: "for_loop 1 (L - 1) (average_body points d) (m0(0 := d 0), dx0(0 \<mapsto> x0), j0) = Inr s"
    and f1: "for_loop 0 (L - 1) (flatten_body d)
               ((fst s)(max 1 (L - 1) := d (max 1 (L - 1) - 1))) = Inr m3"
  shows "for_loop 0 (L - 1) (clamp_body d) m3 \<noteq> Inl UndefinedOperand"
proof (cases "2 \<le> L")
  case True
  from slopes_defined(1,2)[OF True s1 a1]
  have d: "def_upto d (L - 1)"
    and m: "def_upto ((fst s)(max 1 (L - 1) := d (max 1 (L - 1) - 1))) L" .
  have "def_upto m3 (L - 1 + 1)" using flatten_loop_defined[OF f1 m] by simp
  then show ?thesis using d by (rule clamp_loop_no_undef)
next
  case False
  then show ?thesis by (simp add: for_loop_done)
qed

lemma monotoneTangents_no_undef: "monotoneTangents points r \<noteq> Inl UndefinedOperand"
proof -
  obtain L "from" to where R: "range_of points r = (L, from, to)"
    by (cases "range_of points r") auto
  show ?thesis
    unfolding monotoneTangents_def R prod.case Let_def case_prod_beta
    apply (intro no_undef_clamp_after_flatten no_undef_average_after_secants no_undef_bind
        no_undef_deref no_undef_secant_loop no_undef_flatten_loop no_undef_tangent_loop)
    apply assumption+
    done
qed

lemma tangent_loop_int:
  "for_loop 0 L (tangent_body m dx) [] = Inr (map (\<lambda>i. tangent_at m dx (int i)) [0..<nat L])"
proof (cases "0 \<le> L")
  case True
  then have "int (nat L) = L" by simp
  with tangent_loop[of "nat L" m dx] show ?thesis by simp
next
  case False
  then show ?thesis by (simp add: for_loop_done)
qed

lemma real_vecs_defined:
  assumes "\<And>t. t \<in> set ts \<Longrightarrow> n_x t \<noteq> None \<and> n_y t \<noteq> None"
  shows "\<exists>vs. real_vecs ts = Inr vs \<and> length vs = length ts"
  using assms
proof (induction ts)
  case Nil
  show ?case by simp
next
  case (Cons t ts)
  from Cons.prems[of t] obtain x y where t: "n_x t = Some x" "n_y t = Some y" by auto
  from Cons.IH Cons.prems obtain vs where "real_vecs ts = Inr vs" "length vs = length ts" by auto
  with t show ?case by (simp add: real_vec_def num_def)
qed

lemma tangent_at_defined:
  assumes "m i \<noteq> None" "dx i \<noteq> None"
  shows "n_x (tangent_at m dx i) \<noteq> None \<and> n_y (tangent_at m dx i) \<noteq> None"
  using assms by (auto simp: tangent_at_def tangent_vec_def)

lemma monotoneTangents_real:
  assumes R: "range_of points r = (L, from, to)" and L2: "2 \<le> L"
    and res: "monotoneTangents points r = Inr ts"
  shows "\<exists>vs. real_vecs ts = Inr vs \<and> length vs = length ts"
proof -
  let ?K = "max 1 (L - 1)"
  from res obtain d and q p qj pj :: point and s m3 m4 where
    s1: "for_loop 0 (L - 1) (secant_body points from) (\<lambda>x. None) = Inr d"
    and a1: "for_loop 1 (L - 1) (average_body points d)
               ((\<lambda>x. None)(0 := d 0), (\<lambda>x. None)(0 \<mapsto> p_left q - p_left p), from + 1) = Inr s"
    and f1: "for_loop 0 (L - 1) (flatten_body d) ((fst s)(?K := d (?K - 1))) = Inr m3"
    and c1: "for_loop 0 (L - 1) (clamp_body d) m3 = Inr m4"
    and t1: "for_loop 0 L (tangent_body m4 ((fst (snd s))(?K \<mapsto> p_left qj - p_left pj))) [] = Inr ts"
    unfolding monotoneTangents_def R prod.case Let_def case_prod_beta
    by (auto simp: bind_js_def split: sum.splits)
  let ?dx = "(fst (snd s))(?K \<mapsto> p_left qj - p_left pj)"
  from slopes_defined(2,3)[OF L2 s1 a1]
  have m: "def_upto ((fst s)(?K := d (?K - 1))) L" and dx: "def_upto ?dx L" by blast+
  have m4: "def_upto m4 L" by (rule clamp_loop_defined[OF c1 flatten_loop_defined[OF f1 m]])
  from t1 have ts: "ts = map (\<lambda>i. tangent_at m4 ?dx (int i)) [0..<nat L]"
    by (simp add: tangent_loop_int)
  show ?thesis
  proof (rule real_vecs_defined)
    fix t assume "t \<in> set ts"
    then obtain i where i: "i < nat L" and t: "t = tangent_at m4 ?dx (int i)"
      unfolding ts by auto
    from i have "0 \<le> int i \<and> int i < L" by simp
    with m4 dx have "m4 (int i) \<noteq> None" "?dx (int i) \<noteq> None" unfolding def_upto_def by blast+
    then show "n_x t \<noteq> None \<and> n_y t \<noteq> None" unfolding t by (rule tangent_at_defined)
  qed
qed


lemma no_undef_if:
  assumes "c \<Longrightarrow> a \<noteq> Inl UndefinedOperand" "\<not> c \<Longrightarrow> b \<noteq> Inl UndefinedOperand"
  shows "(if c then a else b) \<noteq> Inl UndefinedOperand"
  using assms by simp

lemma no_undef_Inr: "Inr v \<noteq> Inl UndefinedOperand"
  by simp

lemma no_undef_curveHermite_body:
  "curveHermite_body points tangents i s \<noteq> Inl UndefinedOperand"
  unfolding curveHermite_body_def Let_def case_prod_beta
  by (intro no_undef_bind no_undef_deref no_undef_Inr)

lemma no_undef_curveHermiteSegments_body:
  "curveHermiteSegments_body points tangents i s \<noteq> Inl UndefinedOperand"
  unfolding curveHermiteSegments_body_def Let_def case_prod_beta
  by (intro no_undef_bind no_undef_deref no_undef_Inr)

lemma no_undef_curveHermite: "curveHermite points tangents r \<noteq> Inl UndefinedOperand"
proof -
  obtain L "from" to where R: "range_of points r = (L, from, to)"
    by (cases "range_of points r") auto
  show ?thesis
    unfolding curveHermite_def R prod.case Let_def case_prod_beta
    by (intro no_undef_if no_undef_bind no_undef_deref no_undef_Inr no_undef_loop
        no_undef_curveHermite_body)
qed

lemma no_undef_curveHermiteSegments:
  "curveHermiteSegments points tangents r \<noteq> Inl UndefinedOperand"
proof -
  obtain L "from" to where R: "range_of points r = (L, from, to)"
    by (cases "range_of points r") auto
  show ?thesis
    unfolding curveHermiteSegments_def R prod.case Let_def case_prod_beta
    by (intro no_undef_if no_undef_bind no_undef_deref no_undef_Inr no_undef_loop
        no_undef_curveHermiteSegments_body)
qed

lemma range_of_again:
  assumes "range_of points r = (L, from, to)"
  shows "range_of points (Some (from, to)) = (L, from, to)"
  using assms by (auto simp: range_of_def split: option.splits)

lemma no_undef_real_vecs:
  assumes "range_of points r = (L, from, to)" "\<not> L \<le> 2"
    and "monotoneTangents points (Some (from, to)) = Inr ts"
  shows "real_vecs ts \<noteq> Inl UndefinedOperand"
proof -
  have "2 \<le> L" using assms(2) by simp
  from monotoneTangents_real[OF range_of_again[OF assms(1)] this assms(3)]
  show ?thesis by auto
qed

lemma monotone_drivers_no_undef:
  "curveMonotone points r \<noteq> Inl UndefinedOperand"
  "curveMonotoneSegments points r \<noteq> Inl UndefinedOperand"
proof -
  obtain L "from" to where R: "range_of points r = (L, from, to)"
    by (cases "range_of points r") auto
  show "curveMonotone points r \<noteq> Inl UndefinedOperand"
    unfolding curveMonotone_def R prod.case
    apply (intro no_undef_if no_undef_bind no_undef_Inr monotoneTangents_no_undef
        no_undef_curveHermite no_undef_real_vecs)
      apply (rule R)
     apply assumption+
    done
  show "curveMonotoneSegments points r \<noteq> Inl UndefinedOperand"
    unfolding curveMonotoneSegments_def R prod.case
    apply (intro no_undef_if no_undef_bind no_undef_Inr monotoneTangents_no_undef
        no_undef_curveHermiteSegments no_undef_real_vecs)
      apply (rule R)
     apply assumption+
    done
qed

end
